theory Spec2Isabelle
  imports Complex_Main "HOL-Library.Sublist"
begin

section \<open>Text operations of Python's \<open>str\<close>\<close>

text \<open>
  Text is a list of characters. A \<^typ>\<open>char\<close> stands for a code point below 256, so
  the model covers Latin-1 text; inside that range the whitespace characters of
  \<^verbatim>\<open>str.isspace\<close> are the twelve listed below and the decimal digits accepted by
  \<^verbatim>\<open>int\<close> are \<open>0\<close> to \<open>9\<close>. The limit on the number of digits that recent
  CPython versions put on \<^verbatim>\<open>int(str)\<close> is not modelled, nor are the two debugging
  \<^verbatim>\<open>print\<close> calls of the parser.
\<close>

definition whitespace :: "char list" where
  "whitespace = [CHR 0x09, CHR 0x0A, CHR 0x0B, CHR 0x0C, CHR 0x0D, CHR 0x1C, CHR 0x1D,
     CHR 0x1E, CHR 0x1F, CHR 0x20, CHR 0x85, CHR 0xA0]"

definition is_space :: "char \<Rightarrow> bool" where
  "is_space c = (c \<in> set whitespace)"

text \<open>\<^verbatim>\<open>s.strip()\<close>: whitespace is dropped at both ends.\<close>

definition strip :: "string \<Rightarrow> string" where
  "strip s = rev (dropWhile is_space (rev (dropWhile is_space s)))"

text \<open>\<^verbatim>\<open>s.split(sep)\<close> for a separator of one character: never the empty list.\<close>

fun split_on :: "char \<Rightarrow> string \<Rightarrow> string list" where
  "split_on sep [] = [[]]"
| "split_on sep (c # cs) =
     (if c = sep then [] # split_on sep cs
      else (case split_on sep cs of [] \<Rightarrow> [[c]] | l # ls \<Rightarrow> (c # l) # ls))"

text \<open>\<^verbatim>\<open>s.split()\<close>: the maximal runs of characters that are not whitespace.\<close>

function split_ws :: "string \<Rightarrow> string list" where
  "split_ws s =
     (case dropWhile is_space s of
        [] \<Rightarrow> []
      | c # cs \<Rightarrow> (c # takeWhile (\<lambda>x. \<not> is_space x) cs)
                  # split_ws (dropWhile (\<lambda>x. \<not> is_space x) cs))"
  by pat_completeness auto
termination
proof (relation "measure length")
  show "wf (measure length)" by simp
next
  fix s :: string and c cs
  assume "dropWhile is_space s = c # cs"
  then have "length (c # cs) \<le> length s"
    by (metis length_dropWhile_le)
  moreover have "length (dropWhile (\<lambda>x. \<not> is_space x) cs) \<le> length cs"
    by (rule length_dropWhile_le)
  ultimately show "(dropWhile (\<lambda>x. \<not> is_space x) cs, s) \<in> measure length"
    by simp
qed

text \<open>\<^verbatim>\<open>sub in s\<close>: \<open>sub\<close> occurs in \<open>s\<close> as a contiguous block.\<close>

fun contains :: "string \<Rightarrow> string \<Rightarrow> bool" where
  "contains sub [] = (sub = [])"
| "contains sub (c # cs) = (prefix sub (c # cs) \<or> contains sub cs)"

text \<open>\<^verbatim>\<open>s.replace("%", "")\<close>: every percent sign is deleted.\<close>

definition remove_percent :: "string \<Rightarrow> string" where
  "remove_percent s = filter (\<lambda>c. c \<noteq> CHR ''%'') s"

section \<open>Exceptions\<close>

datatype error =
    IndexError
  | ValueError_int string
  | ValueError_incomplete
  | ValueError_parse error
  | Exception_failed string
  | ServiceError string
  | FileNotFoundError string
  | OSError string

text \<open>
  \<^item> \<open>IndexError\<close>: list index out of range;
  \<^item> \<open>ValueError_int tok\<close>: invalid literal for \<^verbatim>\<open>int()\<close> with base 10, \<open>tok\<close>;
  \<^item> \<open>ValueError_incomplete\<close>: "Incomplete sentiment data found in the result.";
  \<^item> \<open>ValueError_parse e\<close>: "Failed to parse result: e", wrapping its cause \<open>e\<close>;
  \<^item> \<open>Exception_failed n\<close>: "File n failed to process";
  \<^item> \<open>ServiceError m\<close>: an exception raised by the client of the remote service;
  \<^item> \<open>FileNotFoundError p\<close>: \<^verbatim>\<open>os.remove\<close> of a path that does not exist;
  \<^item> \<open>OSError m\<close>: an exception raised while the temporary file is opened or written.
\<close>

section \<open>\<^verbatim>\<open>int(str)\<close>\<close>

definition is_digit :: "char \<Rightarrow> bool" where
  "is_digit c = (c \<in> set ''0123456789'')"

definition digit_val :: "char \<Rightarrow> nat" where
  "digit_val c = of_char c - 48"

text \<open>Digits, with single underscores allowed between two digits.\<close>

fun more_digits :: "nat \<Rightarrow> string \<Rightarrow> nat option" where
  "more_digits acc [] = Some acc"
| "more_digits acc (c # cs) =
     (if is_digit c then more_digits (10 * acc + digit_val c) cs
      else if c = CHR ''_'' then
        (case cs of
           [] \<Rightarrow> None
         | d # ds \<Rightarrow> if is_digit d then more_digits (10 * acc + digit_val d) ds else None)
      else None)"

definition digits :: "string \<Rightarrow> nat option" where
  "digits s = (case s of [] \<Rightarrow> None
               | c # cs \<Rightarrow> if is_digit c then more_digits (digit_val c) cs else None)"

definition py_int :: "string \<Rightarrow> error + int" where
  "py_int s =
     (let t = strip s;
          r = (case t of
                 [] \<Rightarrow> None
               | c # cs \<Rightarrow>
                   if c = CHR ''-'' then map_option (\<lambda>n. - int n) (digits cs)
                   else if c = CHR ''+'' then map_option int (digits cs)
                   else map_option int (digits t))
      in case r of None \<Rightarrow> Inl (ValueError_int s) | Some i \<Rightarrow> Inr i)"

section \<open>The Sentiment Tally: a dictionary in insertion order\<close>

type_synonym tally = "(string \<times> int) list"

text \<open>\<^verbatim>\<open>d[k] = v\<close>: an existing key keeps its place, a new key goes to the end.\<close>

fun dict_set :: "tally \<Rightarrow> string \<Rightarrow> int \<Rightarrow> tally" where
  "dict_set [] k v = [(k, v)]"
| "dict_set ((k', v') # d) k v =
     (if k' = k then (k, v) # d else (k', v') # dict_set d k v)"

section \<open>\<^verbatim>\<open>parse_analysis_result\<close>\<close>

text \<open>\<^verbatim>\<open>xs[1]\<close> and \<^verbatim>\<open>xs[0]\<close> raise IndexError out of range.\<close>

definition index1 :: "'a list \<Rightarrow> error + 'a" where
  "index1 xs = (case xs of _ # x # _ \<Rightarrow> Inr x | _ \<Rightarrow> Inl IndexError)"

definition index0 :: "'a list \<Rightarrow> error + 'a" where
  "index0 xs = (case xs of x # _ \<Rightarrow> Inr x | [] \<Rightarrow> Inl IndexError)"

text \<open>
  The expression that the three branches of the loop share:
  \<^verbatim>\<open>int(line.split(":")[1].strip().replace("%", "").split()[0])\<close>.
\<close>

definition extract_value :: "string \<Rightarrow> error + int" where
  "extract_value line =
     (case index1 (split_on (CHR '':'') line) of
        Inl e \<Rightarrow> Inl e
      | Inr seg \<Rightarrow>
          (case index0 (split_ws (remove_percent (strip seg))) of
             Inl e \<Rightarrow> Inl e
           | Inr tok \<Rightarrow> py_int tok))"

text \<open>The body of the \<^verbatim>\<open>for\<close> loop: an \<^verbatim>\<open>if\<close>/\<^verbatim>\<open>elif\<close> chain.\<close>

definition process_line :: "tally \<Rightarrow> string \<Rightarrow> error + tally" where
  "process_line d line =
     (if contains ''Positive'' line then
        (case extract_value line of Inl e \<Rightarrow> Inl e | Inr v \<Rightarrow> Inr (dict_set d ''Positive'' v))
      else if contains ''Negative'' line then
        (case extract_value line of Inl e \<Rightarrow> Inl e | Inr v \<Rightarrow> Inr (dict_set d ''Negative'' v))
      else if contains ''Neutral'' line then
        (case extract_value line of Inl e \<Rightarrow> Inl e | Inr v \<Rightarrow> Inr (dict_set d ''Neutral'' v))
      else Inr d)"

fun parse_lines :: "tally \<Rightarrow> string list \<Rightarrow> error + tally" where
  "parse_lines d [] = Inr d"
| "parse_lines d (line # rest) =
     (case process_line d line of Inl e \<Rightarrow> Inl e | Inr d' \<Rightarrow> parse_lines d' rest)"

text \<open>\<^verbatim>\<open>lines = result.strip().split("\n")\<close>\<close>

definition lines_of :: "string \<Rightarrow> string list" where
  "lines_of result = split_on (CHR 0x0A) (strip result)"

text \<open>The body of the \<^verbatim>\<open>try\<close> block.\<close>

definition parse_body :: "string \<Rightarrow> error + tally" where
  "parse_body result =
     (case parse_lines [] (lines_of result) of
        Inl e \<Rightarrow> Inl e
      | Inr sentiment_data \<Rightarrow>
          if length sentiment_data \<noteq> 3 then Inl ValueError_incomplete
          else Inr sentiment_data)"

text \<open>The \<^verbatim>\<open>except Exception as e\<close> clause wraps every failure of the body.\<close>

definition parse_analysis_result :: "string \<Rightarrow> error + tally" where
  "parse_analysis_result result =
     (case parse_body result of
        Inl e \<Rightarrow> Inl (ValueError_parse e)
      | Inr sentiment_data \<Rightarrow> Inr sentiment_data)"

text \<open>
  The branch that the \<^verbatim>\<open>if\<close>/\<^verbatim>\<open>elif\<close> chain takes on a line, the lines on
  which it takes some branch, and the lines on which it takes the branch of one label.
\<close>

definition line_label :: "string \<Rightarrow> string option" where
  "line_label line =
     (if contains ''Positive'' line then Some ''Positive''
      else if contains ''Negative'' line then Some ''Negative''
      else if contains ''Neutral'' line then Some ''Neutral''
      else None)"

definition has_label :: "string \<Rightarrow> bool" where
  "has_label line =
     (contains ''Positive'' line \<or> contains ''Negative'' line \<or> contains ''Neutral'' line)"

definition matching :: "string \<Rightarrow> string list \<Rightarrow> string list" where
  "matching k ls = filter (\<lambda>l. line_label l = Some k) ls"

text \<open>\<^verbatim>\<open>"\n".join(ls)\<close>, to write texts line by line.\<close>

fun join_lines :: "string list \<Rightarrow> string" where
  "join_lines [] = []"
| "join_lines [l] = l"
| "join_lines (l # m # ls) = l @ CHR 0x0A # join_lines (m # ls)"

section \<open>\<^verbatim>\<open>generate_pie_chart\<close>\<close>

text \<open>
  The figure is the call of \<^verbatim>\<open>ax.pie\<close> that draws it, followed by
  \<^verbatim>\<open>ax.axis("equal")\<close>. The decimal literals of \<^verbatim>\<open>explode\<close> are kept as
  fractions.
\<close>

record pie_chart =
  sizes :: "int list"
  explode :: "rat list"
  labels :: "string list"
  autopct :: string
  shadow :: bool
  startangle :: int
  colors :: "string list"
  axis :: string

definition generate_pie_chart :: "tally \<Rightarrow> pie_chart" where
  "generate_pie_chart data =
     \<lparr> sizes = map snd data,
       explode = [1 / 10, 1 / 10, 0],
       labels = map fst data,
       autopct = ''%1.1f%%'',
       shadow = True,
       startangle = 140,
       colors = [''#4CAF50'', ''#F44336'', ''#FFC107''],
       axis = ''equal'' \<rparr>"

text \<open>
  The pie draws its wedges in the order of \<open>sizes\<close>: the wedge at a position takes the
  label, the colour and the offset at the same position of the other three lists.
\<close>

definition wedges :: "pie_chart \<Rightarrow> (string \<times> int \<times> string \<times> rat) list" where
  "wedges c = zip (labels c) (zip (sizes c) (zip (colors c) (explode c)))"

definition wedge_color :: "pie_chart \<Rightarrow> string \<Rightarrow> string option" where
  "wedge_color c l = map_of (zip (labels c) (colors c)) l"

section \<open>The remote service and the local machine\<close>

text \<open>
  A handle of an uploaded file: \<^verbatim>\<open>file.name\<close> and \<^verbatim>\<open>file.state.name\<close>.
\<close>

record handle =
  file_name :: string
  state_name :: string

text \<open>
  What lies outside the program is a parameter: \<open>upload_file path mime_type\<close> and
  \<open>send_message handle prompt\<close> (the model, the chat session seeded with the handle and
  its reply) answer or raise; \<open>get_file n name\<close> is the answer to the \<open>n\<close>-th status
  request made so far, so that the remote state may change between two requests;
  \<open>render\<close> is the exception, if any, that the plotting and display libraries raise on
  a chart; \<open>open_write path data\<close> is what becomes of
  \<^verbatim>\<open>with open(path, "wb") as f: f.write(data)\<close>: the file is written, or opening it
  raises and no file is made, or the file is made and writing raises, which leaves the
  part written so far.
\<close>

datatype write_result =
    Written
  | Open_failed error
  | Write_failed error string

record services =
  open_write :: "string \<Rightarrow> string \<Rightarrow> write_result"
  upload_file :: "string \<Rightarrow> string \<Rightarrow> error + handle"
  get_file :: "nat \<Rightarrow> string \<Rightarrow> error + handle"
  send_message :: "handle \<Rightarrow> string \<Rightarrow> error + string"
  render :: "pie_chart \<Rightarrow> error option"

datatype ui =
    St_success string
  | St_write string
  | St_pyplot pie_chart
  | St_error error

text \<open>
  The state that the program changes: the local files, the time spent sleeping, the
  number of status requests made, the handles given to a model session (oldest first),
  and what the page shows (oldest first).
\<close>

record world =
  files :: "string \<rightharpoonup> string"
  clock :: nat
  polls :: nat
  sessions :: "handle list"
  screen :: "ui list"

definition upload_to_gemini :: "services \<Rightarrow> string \<Rightarrow> string \<Rightarrow> error + handle" where
  "upload_to_gemini env path mime_type = upload_file env path mime_type"

text \<open>
  \<^verbatim>\<open>wait_for_file_active\<close>: \<open>None\<close> is a loop that never ends. Each turn sleeps 10
  units and asks for the handle again, by its name.
\<close>

partial_function (option) wait_for_file_active ::
  "services \<Rightarrow> world \<Rightarrow> handle \<Rightarrow> ((error + handle) \<times> world) option" where
  "wait_for_file_active env w file =
     (if state_name file = ''PROCESSING'' then
        (case get_file env (polls w) (file_name file) of
           Inl e \<Rightarrow> Some (Inl e, w\<lparr>clock := clock w + 10, polls := polls w + 1\<rparr>)
         | Inr file' \<Rightarrow>
             wait_for_file_active env (w\<lparr>clock := clock w + 10, polls := polls w + 1\<rparr>) file')
      else if state_name file \<noteq> ''ACTIVE'' then
        Some (Inl (Exception_failed (file_name file)), w)
      else Some (Inr file, w))"

definition analyze_sentiment ::
  "services \<Rightarrow> world \<Rightarrow> string \<Rightarrow> ((error + string) \<times> world) option" where
  "analyze_sentiment env w file_path =
     (case upload_to_gemini env file_path ''text/csv'' of
        Inl e \<Rightarrow> Some (Inl e, w)
      | Inr uploaded_file \<Rightarrow>
          (case wait_for_file_active env w uploaded_file of
             None \<Rightarrow> None
           | Some (Inl e, w1) \<Rightarrow> Some (Inl e, w1)
           | Some (Inr active_file, w1) \<Rightarrow>
               (case send_message env active_file ''Analyze the sentiment of this file.'' of
                  Inl e \<Rightarrow> Some (Inl e, w1\<lparr>sessions := sessions w1 @ [active_file]\<rparr>)
                | Inr text \<Rightarrow> Some (Inr text, w1\<lparr>sessions := sessions w1 @ [active_file]\<rparr>))))"

text \<open>
  The handles that the loop holds one after the other, were it never to stop, from the
  handle it is called with; \<open>n\<close> is the number of status requests made before the call.
\<close>

fun fetched :: "services \<Rightarrow> nat \<Rightarrow> handle \<Rightarrow> nat \<Rightarrow> error + handle" where
  "fetched env n file 0 = Inr file"
| "fetched env n file (Suc k) =
     (case fetched env n file k of
        Inl e \<Rightarrow> Inl e
      | Inr f \<Rightarrow> get_file env (n + k) (file_name f))"

definition processing :: "error + handle \<Rightarrow> bool" where
  "processing r = (case r of Inl e \<Rightarrow> False | Inr f \<Rightarrow> state_name f = ''PROCESSING'')"

text \<open>What the function does with the handle on which its loop stops.\<close>

definition outcome :: "error + handle \<Rightarrow> error + handle" where
  "outcome r =
     (case r of
        Inl e \<Rightarrow> Inl e
      | Inr f \<Rightarrow> if state_name f \<noteq> ''ACTIVE'' then Inl (Exception_failed (file_name f))
                 else Inr f)"

section \<open>The page\<close>

record upload =
  upload_name :: string
  upload_data :: string

definition display :: "ui list \<Rightarrow> world \<Rightarrow> world" where
  "display us w = w\<lparr>screen := screen w @ us\<rparr>"

definition os_remove :: "string \<Rightarrow> world \<Rightarrow> error + world" where
  "os_remove path w =
     (if path \<in> dom (files w) then Inr (w\<lparr>files := (files w)(path := None)\<rparr>)
      else Inl (FileNotFoundError path))"

text \<open>The \<^verbatim>\<open>try\<close> block of the page: the exception that leaves it, if any.\<close>

definition try_block :: "services \<Rightarrow> world \<Rightarrow> string \<Rightarrow> (error option \<times> world) option" where
  "try_block env w temp_file_path =
     (case analyze_sentiment env w temp_file_path of
        None \<Rightarrow> None
      | Some (Inl e, w1) \<Rightarrow> Some (Some e, w1)
      | Some (Inr result, w1) \<Rightarrow>
          (let w2 = display [St_success ''Sentiment analysis completed!'',
                             St_write ''### Sentiment Analysis Result:'',
                             St_write result] w1
           in case parse_analysis_result result of
                Inl e \<Rightarrow> Some (Some e, w2)
              | Inr sentiment_data \<Rightarrow>
                  (let w3 = display [St_write ''### Sentiment Distribution:''] w2;
                       pie_chart = generate_pie_chart sentiment_data
                   in case render env pie_chart of
                        Some e \<Rightarrow> Some (Some e, w3)
                      | None \<Rightarrow> Some (None, display [St_pyplot pie_chart] w3))))"

text \<open>
  One run of the script: nothing happens without an upload. With one, the temporary
  file is opened and written, before the \<^verbatim>\<open>try\<close> statement: an exception raised
  there leaves the script at once. Then the \<^verbatim>\<open>try\<close> block runs,
  \<^verbatim>\<open>except\<close> shows its exception and \<^verbatim>\<open>finally\<close> removes the file. The result
  is the exception that leaves the script, if any, and the state it leaves; \<open>None\<close>
  is a run that never ends. The calls of the page's framework are taken not to raise.
\<close>

definition page ::
  "services \<Rightarrow> world \<Rightarrow> upload option \<Rightarrow> (error option \<times> world) option" where
  "page env w uploaded_file =
     (case uploaded_file of
        None \<Rightarrow> Some (None, w)
      | Some up \<Rightarrow>
          (let temp_file_path = ''temp_'' @ upload_name up
           in case open_write env temp_file_path (upload_data up) of
                Open_failed e \<Rightarrow> Some (Some e, w)
              | Write_failed e part \<Rightarrow>
                  Some (Some e, w\<lparr>files := (files w)(temp_file_path \<mapsto> part)\<rparr>)
              | Written \<Rightarrow>
                  (case try_block env
                          (w\<lparr>files := (files w)(temp_file_path \<mapsto> upload_data up)\<rparr>)
                          temp_file_path of
                     None \<Rightarrow> None
                   | Some (exc, w1) \<Rightarrow>
                       (let w2 = (case exc of None \<Rightarrow> w1
                                  | Some e \<Rightarrow> display [St_error e] w1)
                        in case os_remove temp_file_path w2 of
                             Inl e \<Rightarrow> Some (Some e, w2)
                           | Inr w3 \<Rightarrow> Some (None, w3)))))"

section \<open>Malformed lines\<close>

text \<open>
  A line is malformed, for the parser, when \<^verbatim>\<open>extract_value\<close> raises on it: there
  is no colon, or the segment between the first colon and the next one (or the end of
  the line), stripped and with its percent signs deleted, does not begin, after
  whitespace, with a token that \<^verbatim>\<open>int\<close> accepts.
\<close>

definition malformed :: "string \<Rightarrow> bool" where
  "malformed line =
     (CHR '':'' \<notin> set line \<or>
      (case split_on (CHR '':'') line of
         _ # seg # _ \<Rightarrow>
           (case split_ws (remove_percent (strip seg)) of
              [] \<Rightarrow> True
            | tok # _ \<Rightarrow> isl (py_int tok))
       | _ \<Rightarrow> False))"

text \<open>
  The same notion in the words of the specification, which the parser does not follow:
  the first token, delimited by whitespace, of all that comes after the first colon is
  not an integer once its percent signs are deleted.
\<close>

definition malformed_as_claimed :: "string \<Rightarrow> bool" where
  "malformed_as_claimed line =
     (CHR '':'' \<notin> set line \<or>
      (case split_ws (tl (dropWhile (\<lambda>c. c \<noteq> CHR '':'') line)) of
         [] \<Rightarrow> True
       | tok # _ \<Rightarrow> isl (py_int (remove_percent tok))))"

section \<open>Sample replies, handles, services and uploads\<close>

text \<open>Concrete inputs, on which the theorems below are run.\<close>

definition text_plain :: string where
  "text_plain = join_lines [''Positive: 40%'', ''Negative: 10%'', ''Neutral: 50%'']"

definition text_noisy :: string where
  "text_noisy = join_lines ['' Here is the analysis.'', '''', ''Positive: 40%'',
     ''Negative: 10%'', ''Total: 100 reviews'', ''Neutral: 50%'', '''']"

definition text_with_prose :: string where
  "text_with_prose = join_lines [''The reviews are mostly Positive.'', ''Positive: 40%'',
     ''Negative: 10%'', ''Neutral: 50%'']"

definition text_repeated :: string where
  "text_repeated = join_lines [''Positive: 40%'', ''Negative: 10%'', ''Neutral: 50%'',
     ''Positive: 99%'']"

definition text_tally_repeated :: tally where
  "text_tally_repeated = [(''Positive'', 99), (''Negative'', 10), (''Neutral'', 50)]"

definition text_no_neutral :: string where
  "text_no_neutral = join_lines [''Positive: 70%'', ''Negative: 20%'']"

definition line_two_colons :: string where
  "line_two_colons = ''Positive: 40:50''"

definition text_two_colons :: string where
  "text_two_colons = join_lines [line_two_colons, ''Negative: 10%'', ''Neutral: 50%'']"

definition text_no_colon :: string where
  "text_no_colon = join_lines [''Positive: 40%'', ''Negative: 10%'', ''Neutral: 50%'',
     ''Neutral reviews are half'']"

definition text_negative_first :: string where
  "text_negative_first = join_lines [''Negative: 10%'', ''Positive: 40%'', ''Neutral: 50%'']"

definition tally_negative_first :: tally where
  "tally_negative_first = [(''Negative'', 10), (''Positive'', 40), (''Neutral'', 50)]"

definition handle_processing :: handle where
  "handle_processing = \<lparr>file_name = ''files/abc'', state_name = ''PROCESSING''\<rparr>"

definition handle_active :: handle where
  "handle_active = \<lparr>file_name = ''files/abc'', state_name = ''ACTIVE''\<rparr>"

definition handle_failed :: handle where
  "handle_failed = \<lparr>file_name = ''files/abc'', state_name = ''FAILED''\<rparr>"

definition env_slow :: services where
  "env_slow =
     \<lparr> open_write = (\<lambda>path data. Written),
       upload_file = (\<lambda>path mime_type. Inr handle_processing),
       get_file = (\<lambda>n name. if n < 2 then Inr handle_processing else Inr handle_active),
       send_message = (\<lambda>h prompt. Inr text_plain),
       render = (\<lambda>c. None) \<rparr>"

definition env_stuck :: services where
  "env_stuck =
     \<lparr> open_write = (\<lambda>path data. Written),
       upload_file = (\<lambda>path mime_type. Inr handle_processing),
       get_file = (\<lambda>n name. Inr handle_processing),
       send_message = (\<lambda>h prompt. Inr text_plain),
       render = (\<lambda>c. None) \<rparr>"

definition env_failing :: services where
  "env_failing =
     \<lparr> open_write = (\<lambda>path data. Written),
       upload_file = (\<lambda>path mime_type. Inr handle_processing),
       get_file = (\<lambda>n name. Inr handle_failed),
       send_message = (\<lambda>h prompt. Inr text_plain),
       render = (\<lambda>c. None) \<rparr>"

definition world0 :: world where
  "world0 = \<lparr> files = Map.empty, clock = 0, polls = 0, sessions = [], screen = [] \<rparr>"

definition env_down :: services where
  "env_down =
     \<lparr> open_write = (\<lambda>path data. Written),
       upload_file = (\<lambda>path mime_type. Inl (ServiceError ''unavailable'')),
       get_file = (\<lambda>n name. Inl (ServiceError ''unavailable'')),
       send_message = (\<lambda>h prompt. Inl (ServiceError ''unavailable'')),
       render = (\<lambda>c. None) \<rparr>"

definition upload_reviews :: upload where
  "upload_reviews = \<lparr> upload_name = ''reviews.csv'', upload_data = ''review'' \<rparr>"

definition env_disk_full :: services where
  "env_disk_full =
     \<lparr> open_write = (\<lambda>path data. Write_failed (OSError ''No space left on device'') (take 3 data)),
       upload_file = (\<lambda>path mime_type. Inr handle_processing),
       get_file = (\<lambda>n name. Inr handle_active),
       send_message = (\<lambda>h prompt. Inr text_plain),
       render = (\<lambda>c. None) \<rparr>"

definition world_after_failed_write :: world where
  "world_after_failed_write = world0\<lparr>files := [''temp_reviews.csv'' \<mapsto> ''rev'']\<rparr>"

definition text_mixed :: string where
  "text_mixed = join_lines [''Neutral: 50%'', ''Negative: 10%'', ''Neutral or Negative: 20%'',
     ''Positive, not Negative: 40%'']"

definition text_unmixed :: string where
  "text_unmixed = join_lines [''Neutral: 50%'', ''Negative: 10%'', ''Neutral or Negative: 20%'',
     ''Positive: 40%'']"

definition text_all_in_one :: string where
  "text_all_in_one = ''Positive, Negative and Neutral: 5%''"

definition tally_mixed :: tally where
  "tally_mixed = [(''Neutral'', 50), (''Negative'', 20), (''Positive'', 40)]"

section \<open>Facts about the parser\<close>

subsection \<open>The dictionary and the loop over the lines\<close>

lemma contains_sublist: "contains sub s = sublist sub s"
  by (induction s) (simp_all add: sublist_Cons_right)

lemma has_label_line_label: "has_label line = (line_label line \<noteq> None)"
  by (simp add: has_label_def line_label_def)

lemma process_line_label:
  "process_line d line =
     (case line_label line of
        None \<Rightarrow> Inr d
      | Some k \<Rightarrow> (case extract_value line of Inl e \<Rightarrow> Inl e | Inr v \<Rightarrow> Inr (dict_set d k v)))"
  by (simp add: process_line_def line_label_def)

lemma map_of_dict_set: "map_of (dict_set d k v) = (map_of d)(k \<mapsto> v)"
  by (induction d) (auto simp: fun_eq_iff)

lemma map_fst_dict_set:
  "map fst (dict_set d k v) = (if k \<in> set (map fst d) then map fst d else map fst d @ [k])"
  by (induction d) force+

lemma keys_dict_set: "fst ` set (dict_set d k v) = insert k (fst ` set d)"
proof -
  have "set (map fst (dict_set d k v)) = insert k (set (map fst d))"
    unfolding map_fst_dict_set by auto
  then show ?thesis by simp
qed

lemma distinct_dict_set: "distinct (map fst d) \<Longrightarrow> distinct (map fst (dict_set d k v))"
  unfolding map_fst_dict_set by auto

lemma parse_lines_append:
  "parse_lines d (xs @ ys) =
     (case parse_lines d xs of Inl e \<Rightarrow> Inl e | Inr d' \<Rightarrow> parse_lines d' ys)"
  by (induction xs arbitrary: d) (auto split: sum.splits)

lemma parse_lines_filter: "parse_lines d ls = parse_lines d (filter has_label ls)"
  by (induction ls arbitrary: d)
     (auto simp: process_line_label has_label_line_label split: sum.splits option.splits)

lemma parse_lines_Inl:
  "parse_lines d ls = Inl e \<Longrightarrow> \<exists>l \<in> set ls. has_label l \<and> extract_value l = Inl e"
  by (induction ls arbitrary: d)
     (auto simp: process_line_label has_label_line_label split: sum.splits option.splits)

lemma parse_lines_fails:
  "l \<in> set ls \<Longrightarrow> has_label l \<Longrightarrow> extract_value l = Inl e \<Longrightarrow> \<exists>e'. parse_lines d ls = Inl e'"
  by (induction ls arbitrary: d)
     (auto simp: process_line_label has_label_line_label split: sum.splits option.splits)

lemma parse_lines_keys:
  "parse_lines d ls = Inr d' \<Longrightarrow>
     fst ` set d' = fst ` set d \<union> {k. \<exists>l \<in> set ls. line_label l = Some k}"
proof (induction ls arbitrary: d)
  case Nil
  then show ?case by simp
next
  case (Cons l ls)
  from Cons.prems obtain d1 where d1: "process_line d l = Inr d1" and r: "parse_lines d1 ls = Inr d'"
    by (auto split: sum.splits)
  have k1: "fst ` set d1 = fst ` set d \<union> {k. line_label l = Some k}"
  proof (cases "line_label l")
    case None
    then show ?thesis using d1 by (simp add: process_line_label)
  next
    case (Some k)
    then obtain v where "d1 = dict_set d k v"
      using d1 by (auto simp: process_line_label split: sum.splits)
    then show ?thesis using Some by (simp add: keys_dict_set)
  qed
  show ?case
    unfolding Cons.IH[OF r] k1 by auto
qed

lemma parse_lines_distinct:
  "parse_lines d ls = Inr d' \<Longrightarrow> distinct (map fst d) \<Longrightarrow> distinct (map fst d')"
  by (induction ls arbitrary: d)
     (auto simp: process_line_label distinct_dict_set split: sum.splits option.splits)

lemma parse_lines_last:
  "parse_lines d ls = Inr d' \<Longrightarrow>
     map_of d' k =
       (if matching k ls = [] then map_of d k
        else (case extract_value (last (matching k ls)) of Inl e \<Rightarrow> None | Inr v \<Rightarrow> Some v))"
proof (induction ls arbitrary: d)
  case Nil
  then show ?case by (simp add: matching_def)
next
  case (Cons l ls)
  then show ?case
    by (auto simp: process_line_label matching_def map_of_dict_set split: sum.splits option.splits if_splits)
qed


subsection \<open>Whitespace at the ends of a line\<close>

lemma space_not_colon: "is_space c \<Longrightarrow> c \<noteq> CHR '':''"
  by (auto simp: is_space_def whitespace_def)

lemma contains_Cons_other:
  "sub \<noteq> [] \<Longrightarrow> hd sub \<noteq> c \<Longrightarrow> contains sub (c # s) = contains sub s"
  by (cases sub) simp_all

lemma contains_snoc_other:
  assumes "sub \<noteq> []" "last sub \<noteq> c"
  shows "contains sub (s @ [c]) = contains sub s"
proof -
  have "sublist sub (s @ [c]) = sublist (rev sub) (c # rev s)"
    by (metis rev.simps(2) rev_rev_ident rev_singleton_conv sublist_rev_left rev_append)
  also have "\<dots> = sublist (rev sub) (rev s)"
    using assms by (cases sub rule: rev_cases) (simp_all add: sublist_Cons_right)
  finally show ?thesis
    by (simp add: contains_sublist)
qed

lemma line_label_Cons_space: "is_space c \<Longrightarrow> line_label (c # l) = line_label l"
  unfolding line_label_def
  by (subst (1 2 3) contains_Cons_other) (auto simp: is_space_def whitespace_def)

lemma line_label_snoc_space: "is_space c \<Longrightarrow> line_label (l @ [c]) = line_label l"
  unfolding line_label_def
  by (subst (1 2 3) contains_snoc_other) (auto simp: is_space_def whitespace_def)

lemma split_on_not_Nil: "split_on sep s \<noteq> []"
  by (cases s) (auto split: list.splits)

lemma split_on_Cons_other:
  "c \<noteq> sep \<Longrightarrow> split_on sep (c # s) = (c # hd (split_on sep s)) # tl (split_on sep s)"
  using split_on_not_Nil[of sep s] by (auto split: list.splits)

lemma split_on_snoc_sep: "split_on sep (s @ [sep]) = split_on sep s @ [[]]"
  by (induction s) (auto split: list.splits simp: split_on_not_Nil)

lemma split_on_snoc_other:
  "c \<noteq> sep \<Longrightarrow>
   split_on sep (s @ [c]) = butlast (split_on sep s) @ [last (split_on sep s) @ [c]]"
  by (induction s) (auto split: list.splits simp: split_on_not_Nil)

lemma strip_snoc_space:
  assumes "is_space c"
  shows "strip (s @ [c]) = strip s"
proof (cases "\<forall>x\<in>set s. is_space x")
  case True
  then have d1: "dropWhile is_space s = []" by simp
  from True assms have d2: "dropWhile is_space (s @ [c]) = []" by simp
  show ?thesis unfolding strip_def d1 d2 by simp
next
  case False
  then obtain x where "x \<in> set s" "\<not> is_space x" by blast
  then have "dropWhile is_space (s @ [c]) = dropWhile is_space s @ [c]"
    by (rule dropWhile_append1)
  with assms show ?thesis by (simp add: strip_def)
qed

lemma extract_value_Cons_space: "is_space c \<Longrightarrow> extract_value (c # l) = extract_value l"
  using split_on_not_Nil[of "CHR '':''" l]
  by (cases "split_on (CHR '':'') l")
     (auto simp: extract_value_def split_on_Cons_other space_not_colon index1_def split: list.splits)

lemma extract_value_snoc_space:
  assumes "is_space c"
  shows "extract_value (l @ [c]) = extract_value l"
proof -
  let ?xs = "split_on (CHR '':'') l"
  have ne: "?xs \<noteq> []" by (rule split_on_not_Nil)
  have sp: "split_on (CHR '':'') (l @ [c]) = butlast ?xs @ [last ?xs @ [c]]"
    using assms by (simp add: split_on_snoc_other space_not_colon)
  show ?thesis
  proof (cases ?xs)
    case Nil
    with ne show ?thesis by simp
  next
    case (Cons a as)
    show ?thesis
    proof (cases as)
      case Nil
      with Cons sp show ?thesis by (simp add: extract_value_def index1_def)
    next
      case (Cons b bs)
      show ?thesis
      proof (cases bs)
        case Nil
        with Cons \<open>?xs = a # as\<close> sp assms show ?thesis
          by (simp add: extract_value_def index1_def strip_snoc_space)
      next
        case (Cons e es)
        with \<open>as = b # bs\<close> \<open>?xs = a # as\<close> sp show ?thesis
          by (simp add: extract_value_def index1_def)
      qed
    qed
  qed
qed

lemma process_line_Cons_space: "is_space c \<Longrightarrow> process_line d (c # l) = process_line d l"
  by (simp add: process_line_label line_label_Cons_space extract_value_Cons_space
        split: option.splits)

lemma process_line_snoc_space: "is_space c \<Longrightarrow> process_line d (l @ [c]) = process_line d l"
  by (simp add: process_line_label line_label_snoc_space extract_value_snoc_space
        split: option.splits)

lemma process_line_Nil: "process_line d [] = Inr d"
  by (simp add: process_line_def)

lemma parse_lines_lstrip:
  "parse_lines d (split_on (CHR 0x0A) (dropWhile is_space t)) = parse_lines d (split_on (CHR 0x0A) t)"
proof (induction t)
  case Nil
  then show ?case by simp
next
  case (Cons c t)
  show ?case
  proof (cases "is_space c")
    case False
    then show ?thesis by simp
  next
    case True
    show ?thesis
    proof (cases "c = CHR 0x0A")
      case True
      with \<open>is_space c\<close> Cons show ?thesis by (simp add: process_line_Nil)
    next
      case False
      have "parse_lines d (split_on (CHR 0x0A) (c # t)) = parse_lines d (split_on (CHR 0x0A) t)"
        using False True split_on_not_Nil[of "CHR 0x0A" t]
        by (cases "split_on (CHR 0x0A) t") (simp_all add: split_on_Cons_other process_line_Cons_space)
      with True Cons show ?thesis by simp
    qed
  qed
qed

lemma parse_lines_rstrip:
  "parse_lines d (split_on (CHR 0x0A) (rev (dropWhile is_space (rev t)))) = parse_lines d (split_on (CHR 0x0A) t)"
proof (induction t rule: rev_induct)
  case Nil
  then show ?case by simp
next
  case (snoc c t)
  show ?case
  proof (cases "is_space c")
    case False
    then show ?thesis by simp
  next
    case True
    let ?xs = "split_on (CHR 0x0A) t"
    have ne: "?xs \<noteq> []" by (rule split_on_not_Nil)
    have "parse_lines d (split_on (CHR 0x0A) (t @ [c])) = parse_lines d ?xs"
    proof (cases "c = CHR 0x0A")
      case True
      then show ?thesis
        by (simp add: split_on_snoc_sep parse_lines_append process_line_Nil split: sum.splits)
    next
      case False
      have "parse_lines d (butlast ?xs @ [last ?xs @ [c]]) = parse_lines d (butlast ?xs @ [last ?xs])"
        using True by (simp add: parse_lines_append process_line_snoc_space split: sum.splits)
      with False ne show ?thesis
        by (simp add: split_on_snoc_other)
    qed
    with True snoc show ?thesis by simp
  qed
qed

lemma parse_lines_strip:
  "parse_lines d (lines_of t) = parse_lines d (split_on (CHR 0x0A) t)"
  unfolding lines_of_def strip_def
  by (simp add: parse_lines_rstrip parse_lines_lstrip)

lemma split_on_sublist: "l \<in> set (split_on sep t) \<Longrightarrow> sublist l t"
proof (induction t arbitrary: l)
  case Nil
  then show ?case by simp
next
  case (Cons c t)
  show ?case
  proof (cases "c = sep")
    case True
    with Cons show ?thesis by (auto simp: sublist_Cons_right)
  next
    case False
    obtain x xs where xs: "split_on sep t = x # xs"
      using split_on_not_Nil[of sep t] by (cases "split_on sep t") auto
    have px: "prefix x t"
      using xs by (induction t arbitrary: x xs) (auto split: if_splits list.splits)
    from Cons.prems False xs have "l = c # x \<or> l \<in> set xs" by simp
    then show ?thesis
    proof
      assume "l = c # x"
      with px show ?thesis by (simp add: sublist_Cons_right)
    next
      assume "l \<in> set xs"
      with xs Cons.IH have "sublist l t" by simp
      then show ?thesis by (simp add: sublist_Cons_right)
    qed
  qed
qed

lemma contains_line_text:
  "l \<in> set (split_on sep t) \<Longrightarrow> contains sub l \<Longrightarrow> contains sub t"
  unfolding contains_sublist
  using split_on_sublist sublist_order.order_trans by blast

subsection \<open>The result of the whole parse\<close>

lemma line_label_cases:
  "line_label l = Some k \<Longrightarrow> k \<in> {''Positive'', ''Negative'', ''Neutral''} \<and> contains k l"
  by (auto simp: line_label_def split: if_splits)

lemma parse_body_raw:
  "parse_body t =
     (case parse_lines [] (split_on (CHR 0x0A) t) of
        Inl e \<Rightarrow> Inl e
      | Inr d \<Rightarrow> if length d \<noteq> 3 then Inl ValueError_incomplete else Inr d)"
  by (simp add: parse_body_def parse_lines_strip)

lemma parse_success:
  "parse_analysis_result t = Inr d \<longleftrightarrow> parse_lines [] (lines_of t) = Inr d \<and> length d = 3"
  by (auto simp: parse_analysis_result_def parse_body_def split: sum.splits if_splits)

lemma parse_success_raw:
  "parse_analysis_result t = Inr d \<longleftrightarrow>
     parse_lines [] (split_on (CHR 0x0A) t) = Inr d \<and> length d = 3"
  by (simp add: parse_success parse_lines_strip)

lemma parse_keys:
  assumes "parse_lines [] ls = Inr d"
  shows "fst ` set d = {k. \<exists>l\<in>set ls. line_label l = Some k}" "distinct (map fst d)"
  using parse_lines_keys[OF assms] parse_lines_distinct[OF assms] by simp_all

lemma three_keys:
  assumes "parse_lines [] ls = Inr d" "length d = 3"
  shows "fst ` set d = {''Positive'', ''Negative'', ''Neutral''}"
proof -
  have sub: "fst ` set d \<subseteq> {''Positive'', ''Negative'', ''Neutral''}"
    unfolding parse_keys(1)[OF assms(1)] using line_label_cases by blast
  have "card (fst ` set d) = 3"
    using parse_keys(2)[OF assms(1)] assms(2) distinct_card[of "map fst d"] by simp
  moreover have "card {''Positive'', ''Negative'', ''Neutral''} = 3" by simp
  ultimately show ?thesis
    using sub by (metis card_subset_eq finite.emptyI finite.insertI)
qed

section \<open>The claims about the parser\<close>

text \<open>
  C8. Lines that contain none of \<open>Positive\<close>, \<open>Negative\<close>, \<open>Neutral\<close> have no
  effect: two texts whose lines with a label are the same, in the same order, give the
  same result, be it a tally or an error. The lines are those of the text as it is
  given, before the parser strips it.
\<close>

theorem unrelated_lines_ignored:
  "filter has_label (split_on (CHR 0x0A) t) = filter has_label (split_on (CHR 0x0A) t') \<Longrightarrow>
   parse_analysis_result t = parse_analysis_result t'"
proof -
  assume "filter has_label (split_on (CHR 0x0A) t) = filter has_label (split_on (CHR 0x0A) t')"
  then have "parse_lines [] (split_on (CHR 0x0A) t) = parse_lines [] (split_on (CHR 0x0A) t')"
    by (metis parse_lines_filter)
  then show ?thesis
    by (simp add: parse_analysis_result_def parse_body_raw)
qed

theorem unrelated_lines_ignored_witness:
  "filter has_label (split_on (CHR 0x0A) text_plain)
     = filter has_label (split_on (CHR 0x0A) text_noisy)
   \<and> parse_analysis_result text_plain = parse_analysis_result text_noisy
   \<and> parse_analysis_result text_noisy
     = Inr [(''Positive'', 40), (''Negative'', 10), (''Neutral'', 50)]"
proof -
  have h: "filter has_label (split_on (CHR 0x0A) text_plain)
     = filter has_label (split_on (CHR 0x0A) text_noisy)"
    by code_simp
  have r: "parse_analysis_result text_plain
     = Inr [(''Positive'', 40), (''Negative'', 10), (''Neutral'', 50)]"
    by code_simp
  show ?thesis
    using h unrelated_lines_ignored[OF h] r by simp
qed

text \<open>
  C5. When the parser succeeds, the value of each label is the one extracted from the
  last line on which the loop takes the branch of that label: a later line overwrites
  what an earlier line of the same label has set.
\<close>

theorem last_write_wins:
  assumes "parse_analysis_result t = Inr d"
    and "k \<in> {''Positive'', ''Negative'', ''Neutral''}"
  shows "matching k (lines_of t) \<noteq> [] \<and>
         (\<exists>v. extract_value (last (matching k (lines_of t))) = Inr v \<and> map_of d k = Some v)"
proof -
  from assms(1) have p: "parse_lines [] (lines_of t) = Inr d" and len: "length d = 3"
    by (simp_all add: parse_success)
  have keys: "fst ` set d = {''Positive'', ''Negative'', ''Neutral''}"
    by (rule three_keys[OF p len])
  with assms(2) have kin: "k \<in> fst ` set d" by simp
  then have "k \<in> {k. \<exists>l\<in>set (lines_of t). line_label l = Some k}"
    using parse_keys(1)[OF p] by simp
  then have ne: "matching k (lines_of t) \<noteq> []"
    by (auto simp: matching_def filter_empty_conv)
  from kin have some: "map_of d k \<noteq> None"
    by (simp add: map_of_eq_None_iff)
  have "map_of d k =
     (case extract_value (last (matching k (lines_of t))) of Inl e \<Rightarrow> None | Inr v \<Rightarrow> Some v)"
    using parse_lines_last[OF p, of k] ne by simp
  with some ne show ?thesis
    by (auto split: sum.splits)
qed

theorem last_write_wins_witness:
  "parse_analysis_result text_repeated = Inr text_tally_repeated
   \<and> matching ''Positive'' (lines_of text_repeated) = [''Positive: 40%'', ''Positive: 99%'']
   \<and> extract_value ''Positive: 99%'' = Inr 99
   \<and> map_of text_tally_repeated ''Positive'' = Some 99"
proof -
  have p: "parse_analysis_result text_repeated = Inr text_tally_repeated"
    by code_simp
  have m: "matching ''Positive'' (lines_of text_repeated) = [''Positive: 40%'', ''Positive: 99%'']"
    by code_simp
  have e: "extract_value ''Positive: 99%'' = Inr 99"
    by code_simp
  from last_write_wins[OF p, of "''Positive''"] m e
  have "map_of text_tally_repeated ''Positive'' = Some 99"
    by simp
  with p m e show ?thesis by simp
qed

lemma sublist_strip: "sublist (strip t) t"
proof -
  have "suffix (dropWhile is_space (rev (dropWhile is_space t))) (rev (dropWhile is_space t))"
    by (rule suffix_dropWhile)
  then have "prefix (strip t) (dropWhile is_space t)"
    by (simp add: suffix_to_prefix strip_def)
  then have "sublist (strip t) (dropWhile is_space t)"
    by (rule prefix_imp_sublist)
  moreover have "sublist (dropWhile is_space t) t"
    by (rule suffix_imp_sublist[OF suffix_dropWhile])
  ultimately show ?thesis
    by (rule sublist_order.order_trans)
qed

lemma contains_lines_of:
  assumes "l \<in> set (lines_of t)" "contains sub l"
  shows "contains sub t"
proof -
  have "contains sub (strip t)"
    using assms contains_line_text unfolding lines_of_def by blast
  then show ?thesis
    unfolding contains_sublist using sublist_strip sublist_order.order_trans by blast
qed

lemma label_in_text:
  assumes "parse_lines [] (lines_of t) = Inr d" "k \<in> fst ` set d"
  shows "contains k t"
proof -
  from assms obtain l where "l \<in> set (lines_of t)" "line_label l = Some k"
    using parse_keys(1)[OF assms(1)] by auto
  then show ?thesis
    using contains_lines_of line_label_cases by blast
qed

text \<open>
  C2. A successful result has exactly three entries with distinct keys, the three
  labels, and each label occurs in the input text. If one of the labels does not occur
  in the text, the body of the parser raises some exception \<open>e\<close> and the parser fails
  with the parsing error that wraps \<open>e\<close>; this cause is either the complaint about
  incomplete data or the exception raised on a line that carries a label.
\<close>

theorem all_three_or_error:
  "(parse_analysis_result t = Inr d \<longrightarrow>
      length d = 3 \<and> distinct (map fst d)
      \<and> fst ` set d = {''Positive'', ''Negative'', ''Neutral''}
      \<and> contains ''Positive'' t \<and> contains ''Negative'' t \<and> contains ''Neutral'' t)
   \<and> (\<not> contains ''Positive'' t \<or> \<not> contains ''Negative'' t \<or> \<not> contains ''Neutral'' t \<longrightarrow>
        (\<exists>e. parse_body t = Inl e \<and> parse_analysis_result t = Inl (ValueError_parse e)
            \<and> (e = ValueError_incomplete
                \<or> (\<exists>l\<in>set (lines_of t). has_label l \<and> extract_value l = Inl e))))"
proof (intro conjI impI)
  assume ok: "parse_analysis_result t = Inr d"
  then have p: "parse_lines [] (lines_of t) = Inr d" and len: "length d = 3"
    by (simp_all add: parse_success)
  show "length d = 3" by (rule len)
  show "distinct (map fst d)" by (rule parse_keys(2)[OF p])
  show keys: "fst ` set d = {''Positive'', ''Negative'', ''Neutral''}"
    by (rule three_keys[OF p len])
  show "contains ''Positive'' t" by (rule label_in_text[OF p]) (simp add: keys)
  show "contains ''Negative'' t" by (rule label_in_text[OF p]) (simp add: keys)
  show "contains ''Neutral'' t" by (rule label_in_text[OF p]) (simp add: keys)
next
  assume absent: "\<not> contains ''Positive'' t \<or> \<not> contains ''Negative'' t \<or> \<not> contains ''Neutral'' t"
  show "\<exists>e. parse_body t = Inl e \<and> parse_analysis_result t = Inl (ValueError_parse e)
            \<and> (e = ValueError_incomplete
                \<or> (\<exists>l\<in>set (lines_of t). has_label l \<and> extract_value l = Inl e))"
  proof (cases "parse_lines [] (lines_of t)")
    case (Inl e)
    then have "parse_body t = Inl e"
      by (simp add: parse_body_def)
    moreover from Inl have "\<exists>l\<in>set (lines_of t). has_label l \<and> extract_value l = Inl e"
      by (rule parse_lines_Inl)
    ultimately show ?thesis
      by (auto simp: parse_analysis_result_def)
  next
    case (Inr d')
    have "length d' \<noteq> 3"
    proof
      assume len: "length d' = 3"
      have keys: "fst ` set d' = {''Positive'', ''Negative'', ''Neutral''}"
        by (rule three_keys[OF Inr len])
      have "contains ''Positive'' t" by (rule label_in_text[OF Inr]) (simp add: keys)
      moreover have "contains ''Negative'' t" by (rule label_in_text[OF Inr]) (simp add: keys)
      moreover have "contains ''Neutral'' t" by (rule label_in_text[OF Inr]) (simp add: keys)
      ultimately show False using absent by blast
    qed
    with Inr have "parse_body t = Inl ValueError_incomplete"
      by (simp add: parse_body_def)
    then show ?thesis
      by (simp add: parse_analysis_result_def)
  qed
qed

theorem all_three_or_error_witness:
  "parse_analysis_result text_plain = Inr [(''Positive'', 40), (''Negative'', 10), (''Neutral'', 50)]
   \<and> contains ''Positive'' text_plain \<and> contains ''Negative'' text_plain
   \<and> contains ''Neutral'' text_plain
   \<and> \<not> contains ''Neutral'' text_no_neutral
   \<and> parse_body text_no_neutral = Inl ValueError_incomplete
   \<and> parse_analysis_result text_no_neutral = Inl (ValueError_parse ValueError_incomplete)"
proof -
  have p: "parse_analysis_result text_plain
      = Inr [(''Positive'', 40), (''Negative'', 10), (''Neutral'', 50)]"
    by code_simp
  have n: "\<not> contains ''Neutral'' text_no_neutral"
    by code_simp
  have b: "parse_body text_no_neutral = Inl ValueError_incomplete"
    by code_simp
  from all_three_or_error[of text_plain "[(''Positive'', 40), (''Negative'', 10), (''Neutral'', 50)]"] p
  have c: "contains ''Positive'' text_plain \<and> contains ''Negative'' text_plain
      \<and> contains ''Neutral'' text_plain"
    by blast
  from all_three_or_error[of text_no_neutral] n b
  have "parse_analysis_result text_no_neutral = Inl (ValueError_parse ValueError_incomplete)"
    by auto
  with p n b c show ?thesis by simp
qed

lemma value_of_label:
  assumes p: "parse_lines [] ls = Inr d"
    and L: "L \<in> set ls" "line_label L = Some k" "extract_value L = Inr v"
    and only: "\<forall>l\<in>set ls. line_label l = Some k \<longrightarrow> l = L"
  shows "map_of d k = Some v"
proof -
  have ne: "matching k ls \<noteq> []"
    using L by (auto simp: matching_def filter_empty_conv)
  then have "last (matching k ls) \<in> set (matching k ls)"
    by (rule last_in_set)
  then have "last (matching k ls) = L"
    using only by (simp add: matching_def)
  then show ?thesis
    using parse_lines_last[OF p, of k] ne L(3) by simp
qed

lemma key_of_value: "map_of d k = Some v \<Longrightarrow> k \<in> fst ` set d"
  by (metis map_of_SomeD fst_conv image_eqI)

lemma parse_lines_succeeds:
  assumes "\<forall>l\<in>set ls. has_label l \<longrightarrow> \<not> isl (extract_value l)"
  shows "\<exists>d'. parse_lines d ls = Inr d'"
proof (cases "parse_lines d ls")
  case (Inl e)
  then obtain l where "l \<in> set ls" "has_label l" "extract_value l = Inl e"
    using parse_lines_Inl by blast
  with assms show ?thesis by force
next
  case (Inr d')
  then show ?thesis by blast
qed

text \<open>
  C1, as stated, fails: the three lines may stand among other text that contains a
  label. Here a sentence that ends in \<open>Positive.\<close> and has no colon comes before
  them, and the parser fails on it with IndexError.
\<close>

theorem three_lines_counterexample:
  "''Positive: 40%'' \<in> set (split_on (CHR 0x0A) text_with_prose)
   \<and> ''Negative: 10%'' \<in> set (split_on (CHR 0x0A) text_with_prose)
   \<and> ''Neutral: 50%'' \<in> set (split_on (CHR 0x0A) text_with_prose)
   \<and> parse_analysis_result text_with_prose = Inl (ValueError_parse IndexError)"
  by code_simp

text \<open>
  C1, amended. If the lines of the text include \<open>Positive: 40%\<close>,
  \<open>Negative: 10%\<close> and \<open>Neutral: 50%\<close>, in any order and any number of times, and
  every other line contains none of the three labels, then the parser returns a tally
  of three entries that maps Positive to 40, Negative to 10 and Neutral to 50. The
  tally is compared as a mapping, as Python compares dictionaries: the order of its
  entries is the order in which the labels first appear.
\<close>

theorem three_lines_parsed:
  assumes pos: "''Positive: 40%'' \<in> set (split_on (CHR 0x0A) t)"
    and neg: "''Negative: 10%'' \<in> set (split_on (CHR 0x0A) t)"
    and neu: "''Neutral: 50%'' \<in> set (split_on (CHR 0x0A) t)"
    and others: "\<forall>l\<in>set (split_on (CHR 0x0A) t).
        has_label l \<longrightarrow> l \<in> {''Positive: 40%'', ''Negative: 10%'', ''Neutral: 50%''}"
  shows "\<exists>d. parse_analysis_result t = Inr d \<and> length d = 3
      \<and> map_of d = [''Positive'' \<mapsto> 40, ''Negative'' \<mapsto> 10, ''Neutral'' \<mapsto> 50]"
proof -
  let ?ls = "split_on (CHR 0x0A) t"
  have ev: "extract_value ''Positive: 40%'' = Inr 40" "extract_value ''Negative: 10%'' = Inr 10"
    "extract_value ''Neutral: 50%'' = Inr 50"
    by code_simp+
  have lb: "line_label ''Positive: 40%'' = Some ''Positive''"
    "line_label ''Negative: 10%'' = Some ''Negative''"
    "line_label ''Neutral: 50%'' = Some ''Neutral''"
    by code_simp+
  have "\<forall>l\<in>set ?ls. has_label l \<longrightarrow> \<not> isl (extract_value l)"
    using others ev by auto
  then obtain d where p: "parse_lines [] ?ls = Inr d"
    using parse_lines_succeeds by blast
  have only: "\<forall>l\<in>set ?ls. line_label l = Some k \<longrightarrow> l \<in> {''Positive: 40%'', ''Negative: 10%'', ''Neutral: 50%''}" for k
    using others by (auto simp: has_label_line_label)
  have vp: "map_of d ''Positive'' = Some 40"
    by (rule value_of_label[OF p pos lb(1) ev(1)]) (use only[of "''Positive''"] lb in auto)
  have vn: "map_of d ''Negative'' = Some 10"
    by (rule value_of_label[OF p neg lb(2) ev(2)]) (use only[of "''Negative''"] lb in auto)
  have vu: "map_of d ''Neutral'' = Some 50"
    by (rule value_of_label[OF p neu lb(3) ev(3)]) (use only[of "''Neutral''"] lb in auto)
  have sub: "fst ` set d \<subseteq> {''Positive'', ''Negative'', ''Neutral''}"
    unfolding parse_keys(1)[OF p] using line_label_cases by blast
  have sup: "{''Positive'', ''Negative'', ''Neutral''} \<subseteq> fst ` set d"
    using key_of_value[OF vp] key_of_value[OF vn] key_of_value[OF vu] by simp
  from sub sup have keys: "fst ` set d = {''Positive'', ''Negative'', ''Neutral''}"
    by blast
  have "card (fst ` set d) = length d"
    using parse_keys(2)[OF p] distinct_card[of "map fst d"] by simp
  with keys have len: "length d = 3" by simp
  have "map_of d x = [''Positive'' \<mapsto> 40, ''Negative'' \<mapsto> 10, ''Neutral'' \<mapsto> 50] x" for x
  proof (cases "x \<in> {''Positive'', ''Negative'', ''Neutral''}")
    case True
    then show ?thesis using vp vn vu by auto
  next
    case False
    then have "map_of d x = None"
      using keys by (simp add: map_of_eq_None_iff)
    with False show ?thesis by auto
  qed
  then have "map_of d = [''Positive'' \<mapsto> 40, ''Negative'' \<mapsto> 10, ''Neutral'' \<mapsto> 50]"
    by (rule ext)
  with p len show ?thesis
    by (simp add: parse_success_raw)
qed

theorem three_lines_parsed_witness:
  "''Positive: 40%'' \<in> set (split_on (CHR 0x0A) text_noisy)
   \<and> ''Negative: 10%'' \<in> set (split_on (CHR 0x0A) text_noisy)
   \<and> ''Neutral: 50%'' \<in> set (split_on (CHR 0x0A) text_noisy)
   \<and> filter has_label (split_on (CHR 0x0A) text_noisy)
       = [''Positive: 40%'', ''Negative: 10%'', ''Neutral: 50%'']
   \<and> (\<exists>d. parse_analysis_result text_noisy = Inr d \<and> length d = 3
      \<and> map_of d = [''Positive'' \<mapsto> 40, ''Negative'' \<mapsto> 10, ''Neutral'' \<mapsto> 50])"
proof -
  have a: "''Positive: 40%'' \<in> set (split_on (CHR 0x0A) text_noisy)"
    "''Negative: 10%'' \<in> set (split_on (CHR 0x0A) text_noisy)"
    "''Neutral: 50%'' \<in> set (split_on (CHR 0x0A) text_noisy)"
    by code_simp+
  have f: "filter has_label (split_on (CHR 0x0A) text_noisy)
       = [''Positive: 40%'', ''Negative: 10%'', ''Neutral: 50%'']"
    by code_simp
  have "set (filter has_label (split_on (CHR 0x0A) text_noisy))
       = {''Positive: 40%'', ''Negative: 10%'', ''Neutral: 50%''}"
    unfolding f by simp
  then have o: "\<forall>l\<in>set (split_on (CHR 0x0A) text_noisy).
        has_label l \<longrightarrow> l \<in> {''Positive: 40%'', ''Negative: 10%'', ''Neutral: 50%''}"
    by auto
  show ?thesis
    using a f three_lines_parsed[OF a o] by blast
qed

lemma split_on_no_sep: "sep \<notin> set s \<Longrightarrow> split_on sep s = [s]"
  by (induction s) auto

lemma split_on_with_sep: "sep \<in> set s \<Longrightarrow> \<exists>a b r. split_on sep s = a # b # r"
proof (induction s)
  case Nil
  then show ?case by simp
next
  case (Cons c s)
  show ?case
  proof (cases "c = sep")
    case True
    then show ?thesis
      using split_on_not_Nil[of sep s] by (cases "split_on sep s") auto
  next
    case False
    with Cons obtain a b r where "split_on sep s = a # b # r" by auto
    with False show ?thesis by simp
  qed
qed

lemma malformed_extract: "malformed line \<longleftrightarrow> isl (extract_value line)"
proof (cases "CHR '':'' \<in> set line")
  case False
  then show ?thesis
    by (simp add: malformed_def extract_value_def index1_def split_on_no_sep)
next
  case True
  then obtain a b r where "split_on (CHR '':'') line = a # b # r"
    using split_on_with_sep by blast
  with True show ?thesis
    by (simp add: malformed_def extract_value_def index1_def index0_def split: list.splits)
qed

text \<open>
  C10, as stated, fails: in \<open>Positive: 40:50\<close> the first token after the first colon,
  delimited by whitespace, is \<open>40:50\<close>, which is not an integer, yet the parser
  succeeds with 40. The value is taken from the segment between the first and the
  second colon.
\<close>

theorem malformed_line_counterexample:
  "line_two_colons \<in> set (lines_of text_two_colons)
   \<and> contains ''Positive'' line_two_colons
   \<and> malformed_as_claimed line_two_colons
   \<and> parse_analysis_result text_two_colons
       = Inr [(''Positive'', 40), (''Negative'', 10), (''Neutral'', 50)]"
  by code_simp

text \<open>
  C10, amended. A line is malformed when it has no colon, or when the segment between
  its first colon and its second one (or the end of the line), stripped and with every
  percent sign deleted, has no first token delimited by whitespace that \<^verbatim>\<open>int\<close>
  accepts. If the text has a malformed line that contains a label, the parser fails
  with a parsing error that wraps the cause, whatever the other lines supply. The line
  may be taken from the text as given or from the stripped text.
\<close>

theorem malformed_line_fails:
  assumes "l \<in> set (lines_of t) \<or> l \<in> set (split_on (CHR 0x0A) t)"
    and "has_label l" and "malformed l"
  shows "\<exists>e. parse_body t = Inl e \<and> parse_analysis_result t = Inl (ValueError_parse e)"
proof -
  from assms(3) obtain e where e: "extract_value l = Inl e"
    unfolding malformed_extract by (cases "extract_value l") auto
  from assms(1) have "\<exists>e'. parse_lines [] (lines_of t) = Inl e'"
  proof
    assume "l \<in> set (lines_of t)"
    then show ?thesis using parse_lines_fails[OF _ assms(2) e] by blast
  next
    assume "l \<in> set (split_on (CHR 0x0A) t)"
    then show ?thesis
      unfolding parse_lines_strip using parse_lines_fails[OF _ assms(2) e] by blast
  qed
  then show ?thesis
    by (auto simp: parse_analysis_result_def parse_body_def)
qed

theorem malformed_line_fails_witness:
  "''Neutral reviews are half'' \<in> set (lines_of text_no_colon)
   \<and> has_label ''Neutral reviews are half'' \<and> malformed ''Neutral reviews are half''
   \<and> filter has_label (lines_of text_no_colon)
      = [''Positive: 40%'', ''Negative: 10%'', ''Neutral: 50%'', ''Neutral reviews are half'']
   \<and> (\<exists>e. parse_body text_no_colon = Inl e
          \<and> parse_analysis_result text_no_colon = Inl (ValueError_parse e))"
proof -
  have a: "''Neutral reviews are half'' \<in> set (lines_of text_no_colon)
      \<or> ''Neutral reviews are half'' \<in> set (split_on (CHR 0x0A) text_no_colon)"
    and a': "''Neutral reviews are half'' \<in> set (lines_of text_no_colon)"
    by code_simp+
  have b: "has_label ''Neutral reviews are half''"
    by code_simp
  have c: "malformed ''Neutral reviews are half''"
    by code_simp
  have f: "filter has_label (lines_of text_no_colon)
      = [''Positive: 40%'', ''Negative: 10%'', ''Neutral: 50%'', ''Neutral reviews are half'']"
    by code_simp
  show ?thesis
    using a' b c f malformed_line_fails[OF a b c] by blast
qed

text \<open>
  C3. The chart gives colours and offsets by position, and the positions are the order
  in which the parser first met the labels. For a reply that names Negative first, the
  Negative wedge is green and the Positive wedge is red, against the fixed assignment
  that the comments of \<^verbatim>\<open>generate_pie_chart\<close> describe.
\<close>

theorem colors_follow_insertion_order:
  "parse_analysis_result text_negative_first = Inr tally_negative_first
   \<and> wedges (generate_pie_chart tally_negative_first)
       = [(''Negative'', 10, ''#4CAF50'', 1 / 10),
          (''Positive'', 40, ''#F44336'', 1 / 10),
          (''Neutral'', 50, ''#FFC107'', 0)]
   \<and> wedge_color (generate_pie_chart tally_negative_first) ''Negative'' = Some ''#4CAF50''
   \<and> wedge_color (generate_pie_chart tally_negative_first) ''Positive'' = Some ''#F44336''"
proof -
  have "parse_analysis_result text_negative_first = Inr tally_negative_first"
    by code_simp
  moreover have "wedges (generate_pie_chart tally_negative_first)
       = [(''Negative'', 10, ''#4CAF50'', 1 / 10),
          (''Positive'', 40, ''#F44336'', 1 / 10),
          (''Neutral'', 50, ''#FFC107'', 0)]"
    by (simp add: wedges_def generate_pie_chart_def tally_negative_first_def)
  moreover have "wedge_color (generate_pie_chart tally_negative_first) ''Negative'' = Some ''#4CAF50''"
    by (simp add: wedge_color_def generate_pie_chart_def tally_negative_first_def)
  moreover have "wedge_color (generate_pie_chart tally_negative_first) ''Positive'' = Some ''#F44336''"
    by (simp add: wedge_color_def generate_pie_chart_def tally_negative_first_def)
  ultimately show ?thesis by simp
qed

section \<open>Facts about the poll loop\<close>

lemma fetched_shift:
  "fetched env n f (Suc k) =
     (case get_file env n (file_name f) of
        Inl e \<Rightarrow> Inl e
      | Inr f' \<Rightarrow> fetched env (Suc n) f' k)"
  by (induction k) (auto split: sum.splits)

lemma wait_stops:
  assumes "\<forall>j<k. processing (fetched env (polls w) f j)"
    and "\<not> processing (fetched env (polls w) f k)"
  shows "wait_for_file_active env w f =
           Some (outcome (fetched env (polls w) f k),
                 w\<lparr>clock := clock w + 10 * k, polls := polls w + k\<rparr>)"
  using assms
proof (induction k arbitrary: w f)
  case 0
  then have "state_name f \<noteq> ''PROCESSING''"
    by (simp add: processing_def)
  then show ?case
    by (subst wait_for_file_active.simps) (simp add: outcome_def)
next
  case (Suc k)
  from Suc.prems(1) have "processing (fetched env (polls w) f 0)" by blast
  then have pr: "state_name f = ''PROCESSING''"
    by (simp add: processing_def)
  show ?case
  proof (cases "get_file env (polls w) (file_name f)")
    case (Inl e)
    then have f1: "fetched env (polls w) f (Suc j) = Inl e" for j
      by (simp only: fetched_shift sum.case)
    have "k = 0"
    proof (rule ccontr)
      assume "k \<noteq> 0"
      then have "Suc 0 < Suc k" by simp
      with Suc.prems(1) have "processing (fetched env (polls w) f (Suc 0))" by blast
      then show False by (simp only: f1) (simp add: processing_def)
    qed
    with Inl pr f1[of 0] show ?thesis
      by (subst wait_for_file_active.simps) (simp add: outcome_def)
  next
    case (Inr f')
    let ?w = "w\<lparr>clock := clock w + 10, polls := polls w + 1\<rparr>"
    have pw: "polls ?w = Suc (polls w)" by simp
    have sh: "fetched env (polls w) f (Suc j) = fetched env (Suc (polls w)) f' j" for j
      using Inr by (simp only: fetched_shift) simp
    have a: "\<forall>j<k. processing (fetched env (polls ?w) f' j)"
      unfolding pw using Suc.prems(1) sh by (metis Suc_less_eq)
    have b: "\<not> processing (fetched env (polls ?w) f' k)"
      unfolding pw using Suc.prems(2) sh by metis
    have "wait_for_file_active env w f = wait_for_file_active env ?w f'"
      using pr Inr by (subst wait_for_file_active.simps) simp
    also have "\<dots> = Some (outcome (fetched env (polls ?w) f' k),
                 ?w\<lparr>clock := clock ?w + 10 * k, polls := polls ?w + k\<rparr>)"
      by (rule Suc.IH[OF a b])
    finally show ?thesis
      by (simp add: sh del: fetched.simps)
  qed
qed

lemma wait_returns:
  assumes "wait_for_file_active env w f = Some y"
  shows "\<exists>k. (\<forall>j<k. processing (fetched env (polls w) f j))
            \<and> \<not> processing (fetched env (polls w) f k)"
  using assms
proof (induct rule: wait_for_file_active.raw_induct[rotated 1, consumes 1, case_names step])
  case (step wait env w f y)
  show ?case
  proof (cases "state_name f = ''PROCESSING''")
    case False
    then have "\<not> processing (fetched env (polls w) f 0)"
      by (simp add: processing_def)
    then show ?thesis by blast
  next
    case True
    show ?thesis
    proof (cases "get_file env (polls w) (file_name f)")
      case (Inl e)
      have "\<not> processing (fetched env (polls w) f (Suc 0))"
        using Inl by (simp add: processing_def)
      moreover have "\<forall>j<Suc 0. processing (fetched env (polls w) f j)"
        using True by (simp add: processing_def)
      ultimately show ?thesis by blast
    next
      case (Inr f')
      let ?w = "w\<lparr>clock := clock w + 10, polls := polls w + 1\<rparr>"
      from step(2) True Inr have "wait env ?w f' = Some y" by simp
      then obtain k where k: "\<forall>j<k. processing (fetched env (polls ?w) f' j)"
          "\<not> processing (fetched env (polls ?w) f' k)"
        using step(1) by blast
      have sh: "fetched env (polls w) f (Suc j) = fetched env (polls ?w) f' j" for j
        using Inr by (simp only: fetched_shift) simp
      have "\<not> processing (fetched env (polls w) f (Suc k))"
        unfolding sh by (rule k(2))
      moreover have "\<forall>j<Suc k. processing (fetched env (polls w) f j)"
      proof (intro allI impI)
        fix j assume "j < Suc k"
        show "processing (fetched env (polls w) f j)"
        proof (cases j)
          case 0
          then show ?thesis using True by (simp add: processing_def)
        next
          case (Suc i)
          with \<open>j < Suc k\<close> have "i < k" by simp
          with k(1) have "processing (fetched env (polls ?w) f' i)" by blast
          then show ?thesis unfolding Suc sh .
        qed
      qed
      ultimately show ?thesis by blast
    qed
  qed
qed

lemma wait_result:
  assumes "wait_for_file_active env w f = Some (r, w')"
  shows "\<exists>k. (\<forall>j<k. processing (fetched env (polls w) f j))
            \<and> \<not> processing (fetched env (polls w) f k)
            \<and> r = outcome (fetched env (polls w) f k)
            \<and> w' = w\<lparr>clock := clock w + 10 * k, polls := polls w + k\<rparr>"
proof -
  from wait_returns[OF assms] obtain k where
    k: "\<forall>j<k. processing (fetched env (polls w) f j)"
       "\<not> processing (fetched env (polls w) f k)"
    by blast
  from wait_stops[OF k] assms show ?thesis
    using k by auto
qed

lemma wait_forever:
  "(wait_for_file_active env w f = None) = (\<forall>k. processing (fetched env (polls w) f k))"
proof
  assume none: "wait_for_file_active env w f = None"
  show "\<forall>k. processing (fetched env (polls w) f k)"
  proof (rule ccontr)
    assume "\<not> (\<forall>k. processing (fetched env (polls w) f k))"
    then have "\<exists>k. \<not> processing (fetched env (polls w) f k)" by blast
    then obtain k where "\<not> processing (fetched env (polls w) f k)"
      "\<forall>j<k. \<not> \<not> processing (fetched env (polls w) f j)"
      unfolding exists_least_iff[of "\<lambda>k. \<not> processing (fetched env (polls w) f k)"] by blast
    then show False
      using wait_stops[of k env w f] none by simp
  qed
next
  assume all: "\<forall>k. processing (fetched env (polls w) f k)"
  show "wait_for_file_active env w f = None"
  proof (cases "wait_for_file_active env w f")
    case None
    then show ?thesis .
  next
    case (Some y)
    from wait_returns[OF Some] all show ?thesis by blast
  qed
qed

lemma outcome_Inr: "outcome r = Inr h \<Longrightarrow> r = Inr h \<and> state_name h = ''ACTIVE''"
  by (auto simp: outcome_def split: sum.splits if_splits)

section \<open>The claims about the poll loop and the page\<close>

lemma stuck_fetched: "fetched env_stuck n handle_processing k = Inr handle_processing"
  by (induction k) (simp_all add: env_stuck_def)

text \<open>
  C7. The loop of \<^verbatim>\<open>wait_for_file_active\<close> turns once for each handle in state
  PROCESSING and has no bound: if the handles it holds are in that state up to the
  \<open>k\<close>-th, which is not (or if the \<open>k\<close>-th request raises), the function ends after
  exactly \<open>k\<close> requests and \<open>10 * k\<close> units of sleep, with what it makes of the
  \<open>k\<close>-th handle; and it never ends exactly when every handle it would be given is
  in state PROCESSING.
\<close>

theorem poll_loop:
  "((\<forall>j<k. processing (fetched env (polls w) file j))
      \<and> \<not> processing (fetched env (polls w) file k) \<longrightarrow>
    wait_for_file_active env w file =
      Some (outcome (fetched env (polls w) file k),
            w\<lparr>clock := clock w + 10 * k, polls := polls w + k\<rparr>))
   \<and> ((wait_for_file_active env w file = None)
        = (\<forall>k. processing (fetched env (polls w) file k)))"
  using wait_stops[of k env w "file"] wait_forever[of env w "file"] by blast

theorem poll_loop_witness:
  "processing (fetched env_slow (polls world0) handle_processing 0)
   \<and> processing (fetched env_slow (polls world0) handle_processing 1)
   \<and> processing (fetched env_slow (polls world0) handle_processing 2)
   \<and> fetched env_slow (polls world0) handle_processing 3 = Inr handle_active
   \<and> \<not> processing (Inr handle_active)
   \<and> wait_for_file_active env_slow world0 handle_processing
       = Some (Inr handle_active, world0\<lparr>clock := 30, polls := 3\<rparr>)
   \<and> (\<forall>k. processing (fetched env_stuck (polls world0) handle_processing k))
   \<and> wait_for_file_active env_stuck world0 handle_processing = None"
proof -
  have f0: "fetched env_slow 0 handle_processing 0 = Inr handle_processing"
    and f1: "fetched env_slow 0 handle_processing (Suc 0) = Inr handle_processing"
    and f2: "fetched env_slow 0 handle_processing (Suc (Suc 0)) = Inr handle_processing"
    and f3: "fetched env_slow 0 handle_processing (Suc (Suc (Suc 0))) = Inr handle_active"
    by (simp_all add: env_slow_def)
  have p0: "polls world0 = 0" "clock world0 = 0"
    by (simp_all add: world0_def)
  have pp: "processing (Inr handle_processing)" and pa: "\<not> processing (Inr handle_active)"
    by (simp_all add: processing_def handle_processing_def handle_active_def)
  have a: "\<forall>j<3. processing (fetched env_slow (polls world0) handle_processing j)"
  proof (intro allI impI)
    fix j :: nat assume "j < 3"
    then have "j = 0 \<or> j = Suc 0 \<or> j = Suc (Suc 0)" by arith
    then show "processing (fetched env_slow (polls world0) handle_processing j)"
      using f0 f1 f2 pp unfolding p0 by auto
  qed
  have b: "fetched env_slow (polls world0) handle_processing 3 = Inr handle_active"
    using f3 unfolding p0 by (simp add: eval_nat_numeral)
  have o: "outcome (Inr handle_active) = Inr handle_active"
    by (simp add: outcome_def handle_active_def)
  have s: "\<forall>k. processing (fetched env_stuck (polls world0) handle_processing k)"
    by (simp add: stuck_fetched pp)
  from poll_loop[of 3 env_slow world0 handle_processing] a b pa
  have "wait_for_file_active env_slow world0 handle_processing
       = Some (Inr handle_active, world0\<lparr>clock := 30, polls := 3\<rparr>)"
    by (simp add: o p0)
  moreover from poll_loop[of 0 env_stuck world0 handle_processing] s
  have "wait_for_file_active env_stuck world0 handle_processing = None"
    by blast
  moreover have "processing (fetched env_slow (polls world0) handle_processing 0)"
    "processing (fetched env_slow (polls world0) handle_processing 1)"
    "processing (fetched env_slow (polls world0) handle_processing 2)"
    using a[rule_format, of 0] a[rule_format, of 1] a[rule_format, of 2]
    by (simp_all del: fetched.simps)
  ultimately show ?thesis
    using b pa s by blast
qed

lemma wait_sessions:
  "wait_for_file_active env w f = Some (r, w') \<Longrightarrow> sessions w' = sessions w \<and> files w' = files w \<and> screen w' = screen w"
  using wait_result[of env w f r w'] by auto

lemma wait_active:
  "wait_for_file_active env w f = Some (Inr h, w') \<Longrightarrow> state_name h = ''ACTIVE''"
  using wait_result[of env w f "Inr h" w'] outcome_Inr by metis

text \<open>
  C4. A handle that \<^verbatim>\<open>wait_for_file_active\<close> returns is in state ACTIVE. Called
  with a handle that is neither PROCESSING nor ACTIVE, it raises at once the exception
  that names the handle; and when the loop stops on such a handle after \<open>k\<close> turns,
  it raises the exception that names that handle. Hence \<^verbatim>\<open>analyze_sentiment\<close>
  gives at most one handle to a model session, and that handle is ACTIVE.
\<close>

theorem only_active_handles:
  "(wait_for_file_active env w file = Some (Inr file', w') \<longrightarrow> state_name file' = ''ACTIVE'')
   \<and> (state_name file \<noteq> ''PROCESSING'' \<and> state_name file \<noteq> ''ACTIVE'' \<longrightarrow>
        wait_for_file_active env w file = Some (Inl (Exception_failed (file_name file)), w))
   \<and> ((\<forall>j<k. processing (fetched env (polls w) file j))
        \<and> fetched env (polls w) file k = Inr stopped
        \<and> state_name stopped \<noteq> ''PROCESSING'' \<and> state_name stopped \<noteq> ''ACTIVE'' \<longrightarrow>
        wait_for_file_active env w file =
          Some (Inl (Exception_failed (file_name stopped)),
                w\<lparr>clock := clock w + 10 * k, polls := polls w + k\<rparr>))
   \<and> (analyze_sentiment env w file_path = Some (r, w'') \<longrightarrow>
        sessions w'' = sessions w
        \<or> (\<exists>active. state_name active = ''ACTIVE'' \<and> sessions w'' = sessions w @ [active]))"
proof (intro conjI impI)
  assume "wait_for_file_active env w file = Some (Inr file', w')"
  then show "state_name file' = ''ACTIVE''" by (rule wait_active)
next
  assume "state_name file \<noteq> ''PROCESSING'' \<and> state_name file \<noteq> ''ACTIVE''"
  then show "wait_for_file_active env w file = Some (Inl (Exception_failed (file_name file)), w)"
    by (subst wait_for_file_active.simps) simp
next
  assume a: "(\<forall>j<k. processing (fetched env (polls w) file j))
        \<and> fetched env (polls w) file k = Inr stopped
        \<and> state_name stopped \<noteq> ''PROCESSING'' \<and> state_name stopped \<noteq> ''ACTIVE''"
  then have "\<not> processing (fetched env (polls w) file k)"
    by (simp add: processing_def)
  with a have "wait_for_file_active env w file =
      Some (outcome (fetched env (polls w) file k),
            w\<lparr>clock := clock w + 10 * k, polls := polls w + k\<rparr>)"
    using wait_stops by blast
  with a show "wait_for_file_active env w file =
          Some (Inl (Exception_failed (file_name stopped)),
                w\<lparr>clock := clock w + 10 * k, polls := polls w + k\<rparr>)"
    by (simp add: outcome_def)
next
  assume an: "analyze_sentiment env w file_path = Some (r, w'')"
  show "sessions w'' = sessions w
        \<or> (\<exists>active. state_name active = ''ACTIVE'' \<and> sessions w'' = sessions w @ [active])"
  proof (cases "upload_to_gemini env file_path ''text/csv''")
    case (Inl e)
    with an show ?thesis by (simp add: analyze_sentiment_def)
  next
    case (Inr up)
    from an Inr obtain res w1 where w: "wait_for_file_active env w up = Some (res, w1)"
      by (cases "wait_for_file_active env w up") (auto simp: analyze_sentiment_def)
    then have s1: "sessions w1 = sessions w" using wait_sessions by blast
    show ?thesis
    proof (cases res)
      case (Inl e)
      with an Inr w s1 show ?thesis by (simp add: analyze_sentiment_def)
    next
      case (Inr active)
      with w have "state_name active = ''ACTIVE''" using wait_active by blast
      moreover from an \<open>upload_to_gemini env file_path ''text/csv'' = Inr up\<close> w Inr
      have "sessions w'' = sessions w1 @ [active]"
        by (auto simp: analyze_sentiment_def split: sum.splits)
      ultimately show ?thesis using s1 by auto
    qed
  qed
qed

theorem only_active_handles_witness:
  "wait_for_file_active env_slow world0 handle_processing
       = Some (Inr handle_active, world0\<lparr>clock := 30, polls := 3\<rparr>)
   \<and> state_name handle_active = ''ACTIVE''
   \<and> state_name handle_failed \<noteq> ''PROCESSING'' \<and> state_name handle_failed \<noteq> ''ACTIVE''
   \<and> wait_for_file_active env_slow world0 handle_failed
       = Some (Inl (Exception_failed ''files/abc''), world0)
   \<and> fetched env_failing (polls world0) handle_processing 1 = Inr handle_failed
   \<and> wait_for_file_active env_failing world0 handle_processing
       = Some (Inl (Exception_failed ''files/abc''), world0\<lparr>clock := 10, polls := 1\<rparr>)
   \<and> analyze_sentiment env_slow world0 ''temp_reviews.csv''
       = Some (Inr text_plain, world0\<lparr>clock := 30, polls := 3, sessions := [handle_active]\<rparr>)"
proof -
  have p0: "polls world0 = 0" "clock world0 = 0" "sessions world0 = []"
    by (simp_all add: world0_def)
  have f: "fetched env_slow 0 handle_processing 0 = Inr handle_processing"
    "fetched env_slow 0 handle_processing (Suc 0) = Inr handle_processing"
    "fetched env_slow 0 handle_processing (Suc (Suc 0)) = Inr handle_processing"
    "fetched env_slow 0 handle_processing (Suc (Suc (Suc 0))) = Inr handle_active"
    by (simp_all add: env_slow_def)
  have pp: "processing (Inr handle_processing)" and pa: "\<not> processing (Inr handle_active)"
    by (simp_all add: processing_def handle_processing_def handle_active_def)
  have a: "\<forall>j<3. processing (fetched env_slow (polls world0) handle_processing j)"
  proof (intro allI impI)
    fix j :: nat assume "j < 3"
    then have "j = 0 \<or> j = Suc 0 \<or> j = Suc (Suc 0)" by arith
    then show "processing (fetched env_slow (polls world0) handle_processing j)"
      using f pp unfolding p0 by auto
  qed
  have b: "\<not> processing (fetched env_slow (polls world0) handle_processing 3)"
      "outcome (fetched env_slow (polls world0) handle_processing 3) = Inr handle_active"
    using f(4) pa unfolding p0 by (simp_all add: eval_nat_numeral outcome_def handle_active_def)
  have w: "wait_for_file_active env_slow world0 handle_processing
       = Some (Inr handle_active, world0\<lparr>clock := 30, polls := 3\<rparr>)"
    using wait_stops[OF a b(1)] b(2) by (simp add: p0)
  have act: "state_name handle_active = ''ACTIVE''"
    by (rule only_active_handles[THEN conjunct1, THEN mp, OF w])
  have st: "state_name handle_failed \<noteq> ''PROCESSING'' \<and> state_name handle_failed \<noteq> ''ACTIVE''"
    and fn: "file_name handle_failed = ''files/abc''"
    by (simp_all add: handle_failed_def)
  have w2: "wait_for_file_active env_slow world0 handle_failed
       = Some (Inl (Exception_failed ''files/abc''), world0)"
    using only_active_handles[THEN conjunct2, THEN conjunct1, THEN mp, OF st,
        of env_slow world0]
    unfolding fn .
  have g1: "\<forall>j<1. processing (fetched env_failing (polls world0) handle_processing j)"
    using pp by simp
  have g2: "fetched env_failing (polls world0) handle_processing 1 = Inr handle_failed"
    by (simp add: env_failing_def)
  have w3': "wait_for_file_active env_failing world0 handle_processing
       = Some (Inl (Exception_failed (file_name handle_failed)),
               world0\<lparr>clock := clock world0 + 10 * 1, polls := polls world0 + 1\<rparr>)"
    by (rule only_active_handles[THEN conjunct2, THEN conjunct2, THEN conjunct1, THEN mp,
          OF conjI[OF g1 conjI[OF g2 st]]])
  have w3: "wait_for_file_active env_failing world0 handle_processing
       = Some (Inl (Exception_failed ''files/abc''), world0\<lparr>clock := 10, polls := 1\<rparr>)"
    using w3' unfolding fn p0 by simp
  have up: "upload_to_gemini env_slow ''temp_reviews.csv'' ''text/csv'' = Inr handle_processing"
    by (simp add: upload_to_gemini_def env_slow_def)
  have sm: "send_message env_slow handle_active ''Analyze the sentiment of this file.''
      = Inr text_plain"
    by (simp add: env_slow_def)
  have an: "analyze_sentiment env_slow world0 ''temp_reviews.csv''
       = Some (Inr text_plain, world0\<lparr>clock := 30, polls := 3, sessions := [handle_active]\<rparr>)"
    unfolding analyze_sentiment_def up sum.case w option.case prod.case sm
    by (simp add: p0)
  show ?thesis
    by (intro conjI) (rule w act st[THEN conjunct1] st[THEN conjunct2] w2 g2 w3 an)+
qed

lemma analyze_files:
  assumes "analyze_sentiment env w p = Some (r, w')"
  shows "files w' = files w"
proof (cases "upload_to_gemini env p ''text/csv''")
  case (Inl e)
  with assms show ?thesis by (simp add: analyze_sentiment_def)
next
  case (Inr h)
  with assms obtain res w1 where w: "wait_for_file_active env w h = Some (res, w1)"
    by (cases "wait_for_file_active env w h") (auto simp: analyze_sentiment_def)
  then have "files w1 = files w" using wait_sessions by blast
  with assms Inr w show ?thesis
    by (auto simp: analyze_sentiment_def split: sum.splits)
qed

lemma analyze_None:
  "(analyze_sentiment env w p = None)
     = (\<exists>h. upload_file env p ''text/csv'' = Inr h \<and> wait_for_file_active env w h = None)"
  by (auto simp: analyze_sentiment_def upload_to_gemini_def split: sum.splits option.splits)

lemma try_block_files:
  "try_block env w p = Some (e, w') \<Longrightarrow> files w' = files w"
  by (auto simp: try_block_def display_def Let_def dest!: analyze_files
           split: option.splits sum.splits prod.splits)

lemma try_block_None: "(try_block env w p = None) = (analyze_sentiment env w p = None)"
  by (auto simp: try_block_def Let_def split: option.splits sum.splits prod.splits)

text \<open>
  C6, as stated, fails: the temporary file is opened and written before the
  \<^verbatim>\<open>try\<close> statement. When the disk fills up while the file is written, the
  exception leaves the script, \<^verbatim>\<open>finally\<close> is never reached and the part written
  stays on disk.
\<close>

theorem temp_file_counterexample:
  "page env_disk_full world0 (Some upload_reviews)
     = Some (Some (OSError ''No space left on device''), world_after_failed_write)
   \<and> files world_after_failed_write ''temp_reviews.csv'' = Some ''rev''"
  by (simp add: page_def env_disk_full_def upload_reviews_def world_after_failed_write_def
        world0_def)

text \<open>
  C6, amended. Once the temporary file has been written, a run of the page that ends,
  ends without an exception and with the temporary file \<open>temp_\<close>\<open>name\<close> gone, all
  other files being as they were: whether the analysis, the parse or the drawing
  succeeds or raises, \<^verbatim>\<open>finally\<close> removes the file on every way out of the
  \<^verbatim>\<open>try\<close> block. The run has no end in one case only: the file is written, the
  upload succeeds and the poll loop never leaves PROCESSING.
\<close>

theorem temp_file_removed_after_write:
  "(open_write env (''temp_'' @ upload_name up) (upload_data up) = Written
      \<and> page env w (Some up) = Some (exc, w') \<longrightarrow>
      exc = None \<and> files w' = (files w)(''temp_'' @ upload_name up := None))
   \<and> ((page env w (Some up) = None)
        = (open_write env (''temp_'' @ upload_name up) (upload_data up) = Written
           \<and> (\<exists>h. upload_file env (''temp_'' @ upload_name up) ''text/csv'' = Inr h
                  \<and> (\<forall>k. processing (fetched env (polls w) h k)))))"
proof -
  define p where "p = ''temp_'' @ upload_name up"
  define w0 where "w0 = w\<lparr>files := (files w)(p \<mapsto> upload_data up)\<rparr>"
  have pg_eq: "page env w (Some up) =
      (case open_write env p (upload_data up) of
         Open_failed e \<Rightarrow> Some (Some e, w)
       | Write_failed e part \<Rightarrow> Some (Some e, w\<lparr>files := (files w)(p \<mapsto> part)\<rparr>)
       | Written \<Rightarrow>
           (case try_block env w0 p of
              None \<Rightarrow> None
            | Some (exc, w1) \<Rightarrow>
                (case os_remove p (case exc of None \<Rightarrow> w1
                                   | Some e \<Rightarrow> display [St_error e] w1) of
                   Inl e \<Rightarrow> Some (Some e, case exc of None \<Rightarrow> w1
                                           | Some e \<Rightarrow> display [St_error e] w1)
                 | Inr w3 \<Rightarrow> Some (None, w3))))"
    unfolding page_def option.case Let_def p_def[symmetric] w0_def[symmetric]
    by (rule refl)
  have removed: "exc = None \<and> files w' = (files w)(p := None)"
    if wr: "open_write env p (upload_data up) = Written"
      and pg: "page env w (Some up) = Some (exc, w')"
  proof -
    from pg wr obtain e w1 where tb: "try_block env w0 p = Some (e, w1)"
      unfolding pg_eq by (cases "try_block env w0 p") auto
    then have f1: "files w1 = (files w)(p \<mapsto> upload_data up)"
      using try_block_files[of env w0 p e w1] by (simp add: w0_def)
    let ?w2 = "case e of None \<Rightarrow> w1 | Some x \<Rightarrow> display [St_error x] w1"
    have f2: "files ?w2 = (files w)(p \<mapsto> upload_data up)"
      using f1 by (cases e) (simp_all add: display_def)
    then have rm: "os_remove p ?w2 = Inr (?w2\<lparr>files := (files w)(p := None)\<rparr>)"
      by (simp add: os_remove_def)
    from pg have "Some (exc, w') = Some (None, ?w2\<lparr>files := (files w)(p := None)\<rparr>)"
      unfolding pg_eq wr tb write_result.case option.case prod.case rm sum.case
      by simp
    then show ?thesis by simp
  qed
  have "(page env w (Some up) = None)
      = (open_write env p (upload_data up) = Written \<and> try_block env w0 p = None)"
    unfolding pg_eq
    by (auto split: option.splits prod.splits write_result.splits sum.splits)
  also have "\<dots> = (open_write env p (upload_data up) = Written
        \<and> (\<exists>h. upload_file env p ''text/csv'' = Inr h \<and> wait_for_file_active env w0 h = None))"
    by (simp only: try_block_None analyze_None)
  also have "\<dots> = (open_write env p (upload_data up) = Written
        \<and> (\<exists>h. upload_file env p ''text/csv'' = Inr h
               \<and> (\<forall>k. processing (fetched env (polls w) h k))))"
    by (simp add: wait_forever w0_def)
  finally have never: "(page env w (Some up) = None)
        = (open_write env p (upload_data up) = Written
           \<and> (\<exists>h. upload_file env p ''text/csv'' = Inr h
                  \<and> (\<forall>k. processing (fetched env (polls w) h k))))" .
  from removed never show ?thesis
    unfolding p_def by blast
qed

theorem temp_file_removed_after_write_witness:
  "open_write env_slow ''temp_reviews.csv'' (upload_data upload_reviews) = Written
   \<and> (\<exists>w'. page env_slow world0 (Some upload_reviews) = Some (None, w')
         \<and> files w' ''temp_reviews.csv'' = None)
   \<and> (\<exists>w'. page env_down world0 (Some upload_reviews) = Some (None, w')
         \<and> files w' ''temp_reviews.csv'' = None)
   \<and> page env_stuck world0 (Some upload_reviews) = None"
proof -
  have nm: "''temp_'' @ upload_name upload_reviews = ''temp_reviews.csv''"
    by (simp add: upload_reviews_def)
  have p0: "polls world0 = 0" and fl: "files world0 ''temp_reviews.csv'' = None"
    by (simp_all add: world0_def)
  have wr: "open_write env_slow ''temp_reviews.csv'' (upload_data upload_reviews) = Written"
    "open_write env_down ''temp_reviews.csv'' (upload_data upload_reviews) = Written"
    "open_write env_stuck ''temp_reviews.csv'' (upload_data upload_reviews) = Written"
    by (simp_all add: env_slow_def env_down_def env_stuck_def)
  have pa: "\<not> processing (Inr handle_active)" and pp: "processing (Inr handle_processing)"
    by (simp_all add: processing_def handle_active_def handle_processing_def)
  have f3: "fetched env_slow 0 h (Suc (Suc (Suc 0))) = Inr handle_active" for h
    by (simp add: env_slow_def split: sum.splits)
  have slow: "\<not> (\<exists>h. upload_file env_slow ''temp_reviews.csv'' ''text/csv'' = Inr h
               \<and> (\<forall>k. processing (fetched env_slow (polls world0) h k)))"
    unfolding p0 using f3 pa by metis
  have down: "\<not> (\<exists>h. upload_file env_down ''temp_reviews.csv'' ''text/csv'' = Inr h
               \<and> (\<forall>k. processing (fetched env_down (polls world0) h k)))"
    by (simp add: env_down_def)
  have stuck: "\<exists>h. upload_file env_stuck ''temp_reviews.csv'' ''text/csv'' = Inr h
               \<and> (\<forall>k. processing (fetched env_stuck (polls world0) h k))"
  proof (intro exI conjI)
    show "upload_file env_stuck ''temp_reviews.csv'' ''text/csv'' = Inr handle_processing"
      by (simp add: env_stuck_def)
    show "\<forall>k. processing (fetched env_stuck (polls world0) handle_processing k)"
      by (simp add: stuck_fetched pp)
  qed
  note t1 = temp_file_removed_after_write[of env_slow upload_reviews world0, unfolded nm]
  note t2 = temp_file_removed_after_write[of env_down upload_reviews world0, unfolded nm]
  note t3 = temp_file_removed_after_write[of env_stuck upload_reviews world0, unfolded nm]
  from t1[THEN conjunct2] slow obtain x1 w1
    where r1: "page env_slow world0 (Some upload_reviews) = Some (x1, w1)"
    by (cases "page env_slow world0 (Some upload_reviews)") auto
  from t2[THEN conjunct2] down obtain x2 w2
    where r2: "page env_down world0 (Some upload_reviews) = Some (x2, w2)"
    by (cases "page env_down world0 (Some upload_reviews)") auto
  have a: "\<exists>w'. page env_slow world0 (Some upload_reviews) = Some (None, w')
         \<and> files w' ''temp_reviews.csv'' = None"
    using t1[THEN conjunct1, of x1 w1] r1 wr(1) fl by auto
  have b: "\<exists>w'. page env_down world0 (Some upload_reviews) = Some (None, w')
         \<and> files w' ''temp_reviews.csv'' = None"
    using t2[THEN conjunct1, of x2 w2] r2 wr(2) fl by auto
  have c: "page env_stuck world0 (Some upload_reviews) = None"
    using t3[THEN conjunct2] stuck wr(3) by blast
  from wr(1) a b c show ?thesis by blast
qed

section \<open>The claim about lines with several labels\<close>

lemma line_label_Positive: "(line_label l = Some ''Positive'') = contains ''Positive'' l"
  by (simp add: line_label_def)

lemma line_label_Negative:
  "(line_label l = Some ''Negative'') = (\<not> contains ''Positive'' l \<and> contains ''Negative'' l)"
  by (simp add: line_label_def)

lemma line_label_Neutral:
  "(line_label l = Some ''Neutral'')
     = (\<not> contains ''Positive'' l \<and> \<not> contains ''Negative'' l \<and> contains ''Neutral'' l)"
  by (simp add: line_label_def)

lemma label_value_on_success:
  assumes "parse_analysis_result t = Inr d"
    and "k \<in> {''Positive'', ''Negative'', ''Neutral''}"
  shows "matching k (lines_of t) \<noteq> [] \<and>
         (\<exists>v. extract_value (last (matching k (lines_of t))) = Inr v \<and> map_of d k = Some v)"
proof -
  from assms(1) have p: "parse_lines [] (lines_of t) = Inr d" and len: "length d = 3"
    by (simp_all add: parse_success)
  have "fst ` set d = {''Positive'', ''Negative'', ''Neutral''}"
    by (rule three_keys[OF p len])
  with assms(2) have kin: "k \<in> fst ` set d" by simp
  then have "k \<in> {k. \<exists>l\<in>set (lines_of t). line_label l = Some k}"
    using parse_keys(1)[OF p] by simp
  then have ne: "matching k (lines_of t) \<noteq> []"
    by (auto simp: matching_def filter_empty_conv)
  from kin have some: "map_of d k \<noteq> None"
    by (simp add: map_of_eq_None_iff)
  have "map_of d k =
     (case extract_value (last (matching k (lines_of t))) of Inl e \<Rightarrow> None | Inr v \<Rightarrow> Some v)"
    using parse_lines_last[OF p, of k] ne by simp
  with some ne show ?thesis
    by (auto split: sum.splits)
qed

lemma process_line_same_label:
  "line_label l = line_label l' \<Longrightarrow> extract_value l = extract_value l' \<Longrightarrow>
   process_line d l = process_line d l'"
  by (simp add: process_line_label split: option.splits)

lemma parse_lines_same_label:
  assumes "line_label l = line_label l'" "extract_value l = extract_value l'"
  shows "parse_lines d (pre @ l # post) = parse_lines d (pre @ l' # post)"
  using process_line_same_label[OF assms]
  by (simp add: parse_lines_append split: sum.splits)

lemma parse_via_lines:
  "parse_lines [] (lines_of t) = parse_lines [] (lines_of t') \<Longrightarrow>
   parse_analysis_result t = parse_analysis_result t'"
  by (simp add: parse_analysis_result_def parse_body_def)

text \<open>
  C9. A line takes part in the parse for one label only, the first that it contains in
  the order Positive, Negative, Neutral. The parser succeeds exactly when every line
  with a label yields a value and there are a line with \<open>Positive\<close>, a line with
  \<open>Negative\<close> and no \<open>Positive\<close>, and a line with \<open>Neutral\<close> and neither of the
  other two. The tally it then returns takes the value of Positive from the last line
  of the first kind, of Negative from the last line of the second kind and of Neutral
  from the last line of the third kind: a line with \<open>Positive\<close> and \<open>Negative\<close>
  never gives Negative its value, nor does a line with \<open>Negative\<close> and \<open>Neutral\<close>
  give Neutral its value. And the result of the parser does not change when a line
  with \<open>Positive\<close> is replaced by any line with \<open>Positive\<close> and the same value, or
  a line with \<open>Negative\<close> and no \<open>Positive\<close> by another such line with the same
  value, whatever other labels the two lines contain.
\<close>

theorem highest_priority_label_only:
  "((\<exists>d'. parse_analysis_result t = Inr d')
      = ((\<forall>l\<in>set (lines_of t). has_label l \<longrightarrow> \<not> isl (extract_value l))
         \<and> filter (\<lambda>l. contains ''Positive'' l) (lines_of t) \<noteq> []
         \<and> filter (\<lambda>l. \<not> contains ''Positive'' l \<and> contains ''Negative'' l) (lines_of t) \<noteq> []
         \<and> filter (\<lambda>l. \<not> contains ''Positive'' l \<and> \<not> contains ''Negative'' l
                        \<and> contains ''Neutral'' l) (lines_of t) \<noteq> []))
   \<and> (parse_analysis_result t = Inr d \<longrightarrow>
      (\<exists>v. filter (\<lambda>l. contains ''Positive'' l) (lines_of t) \<noteq> []
         \<and> extract_value (last (filter (\<lambda>l. contains ''Positive'' l) (lines_of t))) = Inr v
         \<and> map_of d ''Positive'' = Some v)
    \<and> (\<exists>v. filter (\<lambda>l. \<not> contains ''Positive'' l \<and> contains ''Negative'' l) (lines_of t) \<noteq> []
         \<and> extract_value (last (filter (\<lambda>l. \<not> contains ''Positive'' l \<and> contains ''Negative'' l)
                                   (lines_of t))) = Inr v
         \<and> map_of d ''Negative'' = Some v)
    \<and> (\<exists>v. filter (\<lambda>l. \<not> contains ''Positive'' l \<and> \<not> contains ''Negative'' l
                      \<and> contains ''Neutral'' l) (lines_of t) \<noteq> []
         \<and> extract_value (last (filter (\<lambda>l. \<not> contains ''Positive'' l \<and> \<not> contains ''Negative'' l
                                          \<and> contains ''Neutral'' l) (lines_of t))) = Inr v
         \<and> map_of d ''Neutral'' = Some v))
   \<and> (lines_of t = pre @ line # post \<and> lines_of t' = pre @ line' # post
        \<and> extract_value line = extract_value line'
        \<and> (contains ''Positive'' line \<and> contains ''Positive'' line'
            \<or> \<not> contains ''Positive'' line \<and> \<not> contains ''Positive'' line'
              \<and> contains ''Negative'' line \<and> contains ''Negative'' line') \<longrightarrow>
      parse_analysis_result t = parse_analysis_result t')"
proof (intro conjI impI)
  let ?ls = "lines_of t"
  have m: "matching ''Positive'' ?ls = filter (\<lambda>l. contains ''Positive'' l) ?ls"
    "matching ''Negative'' ?ls
       = filter (\<lambda>l. \<not> contains ''Positive'' l \<and> contains ''Negative'' l) ?ls"
    "matching ''Neutral'' ?ls
       = filter (\<lambda>l. \<not> contains ''Positive'' l \<and> \<not> contains ''Negative'' l
                      \<and> contains ''Neutral'' l) ?ls"
    unfolding matching_def line_label_Positive line_label_Negative line_label_Neutral
    by (rule refl)+
  show "(\<exists>d'. parse_analysis_result t = Inr d')
      = ((\<forall>l\<in>set ?ls. has_label l \<longrightarrow> \<not> isl (extract_value l))
         \<and> filter (\<lambda>l. contains ''Positive'' l) ?ls \<noteq> []
         \<and> filter (\<lambda>l. \<not> contains ''Positive'' l \<and> contains ''Negative'' l) ?ls \<noteq> []
         \<and> filter (\<lambda>l. \<not> contains ''Positive'' l \<and> \<not> contains ''Negative'' l
                        \<and> contains ''Neutral'' l) ?ls \<noteq> [])"
    (is "?L = ?R")
  proof
    assume ?L
    then obtain d' where ok: "parse_analysis_result t = Inr d'" by blast
    then have p: "parse_lines [] ?ls = Inr d'" by (simp add: parse_success)
    have "\<not> isl (extract_value l)" if "l \<in> set ?ls" "has_label l" for l
    proof
      assume "isl (extract_value l)"
      then obtain e where "extract_value l = Inl e" by (cases "extract_value l") auto
      with that have "\<exists>e'. parse_lines [] ?ls = Inl e'" by (rule parse_lines_fails)
      with p show False by simp
    qed
    moreover have "matching ''Positive'' ?ls \<noteq> []" "matching ''Negative'' ?ls \<noteq> []"
      "matching ''Neutral'' ?ls \<noteq> []"
      using label_value_on_success[OF ok] by simp_all
    ultimately show ?R unfolding m by blast
  next
    assume r: ?R
    then obtain d' where p: "parse_lines [] ?ls = Inr d'"
      using parse_lines_succeeds[of ?ls "[]"] by blast
    from r have ne: "matching ''Positive'' ?ls \<noteq> []" "matching ''Negative'' ?ls \<noteq> []"
      "matching ''Neutral'' ?ls \<noteq> []"
      unfolding m by simp_all
    have "k \<in> fst ` set d'" if "matching k ?ls \<noteq> []" for k
    proof -
      from that obtain l where "l \<in> set ?ls" "line_label l = Some k"
        by (auto simp: matching_def filter_empty_conv)
      then show ?thesis unfolding parse_keys(1)[OF p] by blast
    qed
    with ne have sup: "{''Positive'', ''Negative'', ''Neutral''} \<subseteq> fst ` set d'"
      by simp
    have sub: "fst ` set d' \<subseteq> {''Positive'', ''Negative'', ''Neutral''}"
      unfolding parse_keys(1)[OF p] using line_label_cases by blast
    from sub sup have keys: "fst ` set d' = {''Positive'', ''Negative'', ''Neutral''}"
      by blast
    have "card (fst ` set d') = length d'"
      using parse_keys(2)[OF p] distinct_card[of "map fst d'"] by simp
    with keys have "length d' = 3" by simp
    with p show ?L by (auto simp: parse_success)
  qed
next
  assume ok: "parse_analysis_result t = Inr d"
  show "\<exists>v. filter (\<lambda>l. contains ''Positive'' l) (lines_of t) \<noteq> []
         \<and> extract_value (last (filter (\<lambda>l. contains ''Positive'' l) (lines_of t))) = Inr v
         \<and> map_of d ''Positive'' = Some v"
    using label_value_on_success[OF ok, of "''Positive''"]
    unfolding matching_def line_label_Positive by auto
  show "\<exists>v. filter (\<lambda>l. \<not> contains ''Positive'' l \<and> contains ''Negative'' l) (lines_of t) \<noteq> []
         \<and> extract_value (last (filter (\<lambda>l. \<not> contains ''Positive'' l \<and> contains ''Negative'' l)
                                   (lines_of t))) = Inr v
         \<and> map_of d ''Negative'' = Some v"
    using label_value_on_success[OF ok, of "''Negative''"]
    unfolding matching_def line_label_Negative by auto
  show "\<exists>v. filter (\<lambda>l. \<not> contains ''Positive'' l \<and> \<not> contains ''Negative'' l
                      \<and> contains ''Neutral'' l) (lines_of t) \<noteq> []
         \<and> extract_value (last (filter (\<lambda>l. \<not> contains ''Positive'' l \<and> \<not> contains ''Negative'' l
                                          \<and> contains ''Neutral'' l) (lines_of t))) = Inr v
         \<and> map_of d ''Neutral'' = Some v"
    using label_value_on_success[OF ok, of "''Neutral''"]
    unfolding matching_def line_label_Neutral by auto
next
  assume a: "lines_of t = pre @ line # post \<and> lines_of t' = pre @ line' # post
        \<and> extract_value line = extract_value line'
        \<and> (contains ''Positive'' line \<and> contains ''Positive'' line'
            \<or> \<not> contains ''Positive'' line \<and> \<not> contains ''Positive'' line'
              \<and> contains ''Negative'' line \<and> contains ''Negative'' line')"
  then have "line_label line = line_label line'"
    by (auto simp: line_label_def)
  with a have "parse_lines [] (lines_of t) = parse_lines [] (lines_of t')"
    using parse_lines_same_label[of line line' "[]" pre post] by simp
  then show "parse_analysis_result t = parse_analysis_result t'"
    by (rule parse_via_lines)
qed

theorem highest_priority_label_only_witness:
  "parse_analysis_result text_mixed = Inr tally_mixed
   \<and> filter (\<lambda>l. \<not> contains ''Positive'' l \<and> contains ''Negative'' l) (lines_of text_mixed)
       = [''Negative: 10%'', ''Neutral or Negative: 20%'']
   \<and> filter (\<lambda>l. \<not> contains ''Positive'' l \<and> \<not> contains ''Negative'' l \<and> contains ''Neutral'' l)
         (lines_of text_mixed)
       = [''Neutral: 50%'']
   \<and> map_of tally_mixed ''Negative'' = Some 20
   \<and> map_of tally_mixed ''Neutral'' = Some 50
   \<and> map_of tally_mixed ''Positive'' = Some 40
   \<and> parse_analysis_result text_mixed = parse_analysis_result text_unmixed
   \<and> contains ''Positive'' text_all_in_one \<and> contains ''Negative'' text_all_in_one
   \<and> contains ''Neutral'' text_all_in_one
   \<and> parse_analysis_result text_all_in_one = Inl (ValueError_parse ValueError_incomplete)"
proof -
  have one: "contains ''Positive'' text_all_in_one" "contains ''Negative'' text_all_in_one"
    "contains ''Neutral'' text_all_in_one"
    "parse_analysis_result text_all_in_one = Inl (ValueError_parse ValueError_incomplete)"
    by code_simp+
  have p: "parse_analysis_result text_mixed = Inr tally_mixed"
    by code_simp
  have fp: "filter (\<lambda>l. contains ''Positive'' l) (lines_of text_mixed)
       = [''Positive, not Negative: 40%'']"
    by code_simp
  have fn: "filter (\<lambda>l. \<not> contains ''Positive'' l \<and> contains ''Negative'' l) (lines_of text_mixed)
       = [''Negative: 10%'', ''Neutral or Negative: 20%'']"
    by code_simp
  have fu: "filter (\<lambda>l. \<not> contains ''Positive'' l \<and> \<not> contains ''Negative'' l \<and> contains ''Neutral'' l)
         (lines_of text_mixed)
       = [''Neutral: 50%'']"
    by code_simp
  have ev: "extract_value ''Positive, not Negative: 40%'' = Inr 40"
    "extract_value ''Neutral or Negative: 20%'' = Inr 20"
    "extract_value ''Neutral: 50%'' = Inr 50"
    "extract_value ''Positive: 40%'' = Inr 40"
    by code_simp+
  note th = highest_priority_label_only[where t = text_mixed and d = tally_mixed
      and pre = "[''Neutral: 50%'', ''Negative: 10%'', ''Neutral or Negative: 20%'']"
      and line = "''Positive, not Negative: 40%''" and post = "[]" and t' = text_unmixed
      and line' = "''Positive: 40%''"]
  from th[THEN conjunct2, THEN conjunct1, THEN mp, OF p]
  have vals: "map_of tally_mixed ''Positive'' = Some 40"
    "map_of tally_mixed ''Negative'' = Some 20"
    "map_of tally_mixed ''Neutral'' = Some 50"
    unfolding fp fn fu using ev by auto
  have l1: "lines_of text_mixed
      = [''Neutral: 50%'', ''Negative: 10%'', ''Neutral or Negative: 20%'']
        @ ''Positive, not Negative: 40%'' # []"
    by code_simp
  have l2: "lines_of text_unmixed
      = [''Neutral: 50%'', ''Negative: 10%'', ''Neutral or Negative: 20%'']
        @ ''Positive: 40%'' # []"
    by code_simp
  have c: "contains ''Positive'' ''Positive, not Negative: 40%''"
    "contains ''Positive'' ''Positive: 40%''"
    by code_simp+
  have e: "extract_value ''Positive, not Negative: 40%'' = extract_value ''Positive: 40%''"
    by (simp only: ev)
  have eq: "parse_analysis_result text_mixed = parse_analysis_result text_unmixed"
    by (rule th[THEN conjunct2, THEN conjunct2, THEN mp,
          OF conjI[OF l1 conjI[OF l2 conjI[OF e disjI1[OF conjI[OF c(1) c(2)]]]]]])
  from p fn fu vals eq one show ?thesis by blast
qed

end
